theory Spec2Isabelle
  imports Main "HOL-Library.AList"
begin

section \<open>The knowledge graph service of the Obsidian MCP server\<close>

text \<open>
  A shallow embedding of \<^verbatim>\<open>KnowledgeGraphService\<close> (TypeScript): the note
  snapshot it keeps, link resolution, graph construction, the two traversals, the
  analysis and the link suggestions.

  Conventions of the embedding.
  \<^item> A JavaScript string is a \<open>string\<close>, a list of characters of eight bits: each
    character is a UTF-16 code unit below 256, that is a code point of ASCII or of the
    Latin-1 block, so that \<open>length\<close> is \<^verbatim>\<open>String.length\<close>. \<open>toLowerCase\<close> and
    the regular expression \<^verbatim>\<open>\s\<close> are written out on all of these code units.
  \<^item> A JavaScript \<^verbatim>\<open>Map\<close> iterates in insertion order, so it is an association
    list with distinct keys; \<^verbatim>\<open>set\<close> on a key that is present replaces the value
    where it stands.
  \<^item> An optional field (\<^verbatim>\<open>tags?\<close>, \<^verbatim>\<open>links?\<close>, \<^verbatim>\<open>backlinks?\<close>) is an
    \<open>option\<close>; the fields of a note that the service never reads
    (\<^verbatim>\<open>frontmatter\<close>, \<^verbatim>\<open>createdAt\<close>, \<^verbatim>\<open>modifiedAt\<close>) are left out.
  \<^item> A \<^verbatim>\<open>number\<close> that counts or bounds is an \<open>int\<close>; scores stay far below
    the range where a double stops being exact.
\<close>

subsection \<open>Data model\<close>

datatype link_type = internal | embed | external

record link =
  link_source :: string
  link_target :: string
  link_type :: link_type

record Note =
  path :: string
  title :: string
  content :: string
  tags :: "string list option"
  links :: "link list option"
  backlinks :: "link list option"

datatype node_type = note_node | tag_node | folder_node

record node_metadata =
  meta_tags :: "string list option"
  wordCount :: nat
  linkCount :: nat

record graph_node =
  node_id :: string
  node_title :: string
  node_type :: node_type
  metadata :: "node_metadata option"

datatype edge_type = link_edge link_type | tagged_with | in_folder

record graph_edge =
  edge_source :: string
  edge_target :: string
  edge_type :: edge_type
  weight :: int

record knowledge_graph =
  nodes :: "graph_node list"
  edges :: "graph_edge list"

record graph_analysis =
  totalNodes :: nat
  totalEdges :: nat
  mostConnectedNodes :: "(string \<times> int) list"
  orphanNotes :: "string list"

subsection \<open>Insertion-ordered maps\<close>

type_synonym ('k, 'v) js_map = "('k \<times> 'v) list"

definition Map_get :: "('k, 'v) js_map \<Rightarrow> 'k \<Rightarrow> 'v option" where
  "Map_get m k = map_of m k"

definition Map_has :: "('k, 'v) js_map \<Rightarrow> 'k \<Rightarrow> bool" where
  "Map_has m k = (map_of m k \<noteq> None)"

definition Map_set :: "('k, 'v) js_map \<Rightarrow> 'k \<Rightarrow> 'v \<Rightarrow> ('k, 'v) js_map" where
  "Map_set m k v = AList.update k v m"

definition Map_values :: "('k, 'v) js_map \<Rightarrow> 'v list" where
  "Map_values m = map snd m"

type_synonym snapshot = "(string, Note) js_map"

text \<open>\<^verbatim>\<open>updateNotes\<close>: clear the map, then store every note under its path.\<close>

definition updateNotes :: "Note list \<Rightarrow> snapshot" where
  "updateNotes ns = fold (\<lambda>n m. Map_set m (path n) n) ns []"

text \<open>
  What \<^verbatim>\<open>updateNotes\<close> establishes: keys are distinct and every note is stored
  under its own path.
\<close>

definition wf_snapshot :: "snapshot \<Rightarrow> bool" where
  "wf_snapshot s = (distinct (map fst s) \<and> list_all (\<lambda>(k, n). path n = k) s)"

subsection \<open>Strings\<close>

definition endsWith :: "string \<Rightarrow> string \<Rightarrow> bool" where
  "endsWith s suf =
     (length suf \<le> length s \<and> drop (length s - length suf) s = suf)"

fun lastIndexOf_from :: "string \<Rightarrow> char \<Rightarrow> nat \<Rightarrow> int \<Rightarrow> int" where
  "lastIndexOf_from [] c i found = found"
| "lastIndexOf_from (x # xs) c i found =
     lastIndexOf_from xs c (Suc i) (if x = c then int i else found)"

definition lastIndexOf :: "string \<Rightarrow> char \<Rightarrow> int" where
  "lastIndexOf s c = lastIndexOf_from s c 0 (- 1)"

definition getFolder :: "string \<Rightarrow> string" where
  "getFolder p =
     (let lastSlash = lastIndexOf p (CHR ''/'')
      in if lastSlash = - 1 then ''.'' else take (nat lastSlash) p)"

definition opt_list :: "'a list option \<Rightarrow> 'a list" where
  "opt_list xs = (case xs of None \<Rightarrow> [] | Some ys \<Rightarrow> ys)"

subsection \<open>Link resolution\<close>

fun find_by_title :: "snapshot \<Rightarrow> string \<Rightarrow> string \<Rightarrow> string option" where
  "find_by_title [] linkTarget normalized = None"
| "find_by_title ((p, n) # rest) linkTarget normalized =
     (if title n = linkTarget \<or> endsWith p (''/'' @ normalized) then Some p
      else find_by_title rest linkTarget normalized)"

definition resolveNotePath :: "snapshot \<Rightarrow> string \<Rightarrow> string" where
  "resolveNotePath s linkTarget =
     (let normalized = (if endsWith linkTarget ''.md'' then linkTarget
                        else linkTarget @ ''.md'')
      in if Map_has s normalized then normalized
         else case find_by_title s linkTarget normalized of
                Some p \<Rightarrow> p
              | None \<Rightarrow> normalized)"

text \<open>The resolved targets of a note's outgoing links, in link order.\<close>

definition link_targets :: "snapshot \<Rightarrow> Note \<Rightarrow> string list" where
  "link_targets s n = map (\<lambda>l. resolveNotePath s (link_target l)) (opt_list (links n))"

subsection \<open>Shortest path\<close>

text \<open>
  The queue holds pairs of a path and the route that led to it. The loop of
  \<^verbatim>\<open>findPath\<close> takes the head of the queue, answers when it is the goal, drops
  it when it was visited, and otherwise marks it and appends the resolved targets
  that are not visited.
\<close>

fun push_links :: "snapshot \<Rightarrow> link list \<Rightarrow> string set \<Rightarrow> string list \<Rightarrow>
    (string \<times> string list) list \<Rightarrow> (string \<times> string list) list" where
  "push_links s [] visited route queue = queue"
| "push_links s (l # ls) visited route queue =
     (let target = resolveNotePath s (link_target l)
      in push_links s ls visited route
           (if target \<notin> visited then queue @ [(target, route @ [target])] else queue))"

function findPath_loop :: "snapshot \<Rightarrow> string \<Rightarrow> (string \<times> string list) list \<Rightarrow>
    string set \<Rightarrow> string list option" where
  "findPath_loop s toPath [] visited = None"
| "findPath_loop s toPath ((p, route) # queue) visited =
     (if p = toPath then Some route
      else if p \<in> visited then findPath_loop s toPath queue visited
      else (case Map_get s p of
              None \<Rightarrow> findPath_loop s toPath queue (insert p visited)
            | Some n \<Rightarrow>
                findPath_loop s toPath
                  (push_links s (opt_list (links n)) (insert p visited) route queue)
                  (insert p visited)))"
  by pat_completeness auto

text \<open>
  Every path that is ever queued is the start or a resolved target of some link of the
  snapshot, so each round either shortens the queue or visits one more of finitely
  many paths.
\<close>

definition all_targets :: "snapshot \<Rightarrow> string set" where
  "all_targets s = (\<Union>n \<in> set (Map_values s). set (link_targets s n))"

definition unvisited :: "snapshot \<Rightarrow> (string \<times> string list) list \<Rightarrow> string set \<Rightarrow> string set" where
  "unvisited s queue visited = (all_targets s \<union> fst ` set queue) - visited"

lemma push_links_eq:
  "push_links s ls visited route queue =
     queue @ map (\<lambda>t. (t, route @ [t]))
               (filter (\<lambda>t. t \<notin> visited) (map (\<lambda>l. resolveNotePath s (link_target l)) ls))"
  by (induction ls arbitrary: queue) (simp_all add: Let_def)

lemma finite_all_targets: "finite (all_targets s)"
  by (simp add: all_targets_def)

lemma finite_unvisited: "finite (unvisited s queue visited)"
  by (simp add: unvisited_def finite_all_targets)

lemma Map_get_in_values: "Map_get s p = Some n \<Longrightarrow> n \<in> set (Map_values s)"
  by (auto simp: Map_get_def Map_values_def dest!: map_of_SomeD intro: rev_image_eqI)

lemma targets_in_all: "Map_get s p = Some n \<Longrightarrow> set (link_targets s n) \<subseteq> all_targets s"
  by (auto simp: all_targets_def dest: Map_get_in_values)

lemma unvisited_drop:
  "unvisited s queue visited \<subseteq> unvisited s ((p, route) # queue) visited"
  by (auto simp: unvisited_def)

lemma unvisited_visit_absent:
  "p \<notin> visited \<Longrightarrow>
     unvisited s queue (insert p visited) \<subset> unvisited s ((p, route) # queue) visited"
  by (auto simp: unvisited_def)

lemma unvisited_visit_push:
  assumes "p \<notin> visited" and "Map_get s p = Some n"
  shows "unvisited s (push_links s (opt_list (links n)) (insert p visited) route' queue)
           (insert p visited) \<subset> unvisited s ((p, route) # queue) visited"
proof -
  have "set (link_targets s n) \<subseteq> all_targets s"
    using assms(2) by (rule targets_in_all)
  then show ?thesis
    using assms(1) by (auto simp: unvisited_def push_links_eq link_targets_def)
qed

definition findPath_order ::
   "((snapshot \<times> string \<times> (string \<times> string list) list \<times> string set) \<times>
     (snapshot \<times> string \<times> (string \<times> string list) list \<times> string set)) set" where
  "findPath_order = inv_image (finite_psubset <*lex*> measure length)
                      (\<lambda>(s, toPath, queue, visited). (unvisited s queue visited, queue))"

lemma wf_findPath_order: "wf findPath_order"
  unfolding findPath_order_def
  by (intro wf_inv_image wf_lex_prod wf_finite_psubset wf_measure)

termination findPath_loop
proof (relation findPath_order)
  show "wf findPath_order" by (rule wf_findPath_order)
next
  fix s :: snapshot and toPath p :: string and route :: "string list"
    and queue :: "(string \<times> string list) list" and visited :: "string set"
  assume "p \<noteq> toPath" "p \<in> visited"
  then show "((s, toPath, queue, visited), (s, toPath, (p, route) # queue, visited))
      \<in> findPath_order"
    using unvisited_drop [of s queue visited p route]
    by (auto simp: findPath_order_def finite_psubset_def finite_unvisited)
next
  fix s :: snapshot and toPath p :: string and route :: "string list"
    and queue :: "(string \<times> string list) list" and visited :: "string set"
  assume "p \<noteq> toPath" "p \<notin> visited" "Map_get s p = None"
  then show "((s, toPath, queue, insert p visited), (s, toPath, (p, route) # queue, visited))
      \<in> findPath_order"
    using unvisited_visit_absent [of p visited s queue route]
    by (simp add: findPath_order_def finite_psubset_def finite_unvisited)
next
  fix s :: snapshot and toPath p :: string and route :: "string list"
    and queue :: "(string \<times> string list) list" and visited :: "string set" and n :: Note
  assume "p \<noteq> toPath" "p \<notin> visited" "Map_get s p = Some n"
  then show "((s, toPath, push_links s (opt_list (links n)) (insert p visited) route queue,
               insert p visited), (s, toPath, (p, route) # queue, visited))
      \<in> findPath_order"
    using unvisited_visit_push [of p visited s n route queue route]
    by (simp add: findPath_order_def finite_psubset_def finite_unvisited)
qed

definition findPath :: "snapshot \<Rightarrow> string \<Rightarrow> string \<Rightarrow> string list option" where
  "findPath s fromPath toPath = findPath_loop s toPath [(fromPath, [fromPath])] {}"

subsection \<open>Related notes\<close>

text \<open>
  \<^verbatim>\<open>getRelatedNotes\<close> runs the closure \<^verbatim>\<open>traverse\<close> from the start at depth
  0. The closure shares two sets with all of its calls, \<^verbatim>\<open>visited\<close> and
  \<^verbatim>\<open>related\<close>; here each call takes the pair and returns it updated. A JavaScript
  \<^verbatim>\<open>Set\<close> iterates in insertion order, so \<^verbatim>\<open>related\<close> is a list without
  duplicates; \<^verbatim>\<open>visited\<close> is only ever asked for membership.
\<close>

definition Set_add :: "'a list \<Rightarrow> 'a \<Rightarrow> 'a list" where
  "Set_add xs x = (if x \<in> set xs then xs else xs @ [x])"

function traverse :: "snapshot \<Rightarrow> int \<Rightarrow> string \<Rightarrow> nat \<Rightarrow> string set \<times> string list \<Rightarrow>
    string set \<times> string list" where
  "traverse s maxDepth p depth (visited, related) =
     (if int depth > maxDepth \<or> p \<in> visited then (visited, related)
      else (case Map_get s p of
              None \<Rightarrow> (insert p visited, related)
            | Some n \<Rightarrow>
                (let related' = (if depth > 0 then Set_add related p else related);
                     st1 = (case links n of
                              None \<Rightarrow> (insert p visited, related')
                            | Some ls \<Rightarrow>
                                fold (\<lambda>l st. traverse s maxDepth
                                                (resolveNotePath s (link_target l)) (depth + 1) st)
                                  ls (insert p visited, related'));
                     st2 = (case backlinks n of
                              None \<Rightarrow> st1
                            | Some bs \<Rightarrow>
                                fold (\<lambda>l st. traverse s maxDepth (link_source l) (depth + 1) st)
                                  bs st1)
                 in st2)))"
  by pat_completeness auto
termination traverse
  by (relation "measure (\<lambda>(s, maxDepth, p, depth, st). nat (maxDepth + 1 - int depth))") auto

definition getRelatedNotes :: "snapshot \<Rightarrow> string \<Rightarrow> int \<Rightarrow> Note list" where
  "getRelatedNotes s notePath maxDepth =
     (let (visited, related) = traverse s maxDepth notePath 0 ({}, [])
      in List.map_filter (Map_get s) related)"

subsection \<open>Routes along resolved outgoing links\<close>

text \<open>
  The vocabulary for stating what \<^verbatim>\<open>findPath\<close> computes: the resolved targets
  of the note stored under a path, the relation they induce, and routes, which are
  non-empty sequences whose consecutive entries are related. \<open>bfs_inv\<close> is the loop
  invariant of the search.
\<close>

definition successors :: "snapshot \<Rightarrow> string \<Rightarrow> string list" where
  "successors s p = (case Map_get s p of None \<Rightarrow> [] | Some n \<Rightarrow> link_targets s n)"

definition link_rel :: "snapshot \<Rightarrow> (string \<times> string) set" where
  "link_rel s = {(p, q). q \<in> set (successors s p)}"

fun linked :: "snapshot \<Rightarrow> string list \<Rightarrow> bool" where
  "linked s [] = True"
| "linked s [x] = True"
| "linked s (x # y # r) = (y \<in> set (successors s x) \<and> linked s (y # r))"

definition route_from :: "snapshot \<Rightarrow> string \<Rightarrow> string list \<Rightarrow> bool" where
  "route_from s a r = (r \<noteq> [] \<and> hd r = a \<and> linked s r)"

definition bfs_inv :: "snapshot \<Rightarrow> string \<Rightarrow> string \<Rightarrow> (string \<times> string list) list \<Rightarrow>
    string set \<Rightarrow> bool" where
  "bfs_inv s a b queue visited =
     ((\<forall>(p, r) \<in> set queue. route_from s a r \<and> last r = p) \<and>
      sorted (map (length \<circ> snd) queue) \<and>
      (\<forall>e \<in> set queue. length (snd e) \<le> Suc (length (snd (hd queue)))) \<and>
      b \<notin> visited \<and>
      (\<forall>xs u. route_from s a (xs @ [u]) \<and> u \<notin> visited \<and> (xs = [] \<or> last xs \<in> visited)
         \<longrightarrow> (\<exists>r. (u, r) \<in> set queue \<and> length r \<le> Suc (length xs))))"

subsection \<open>Graph construction\<close>

text \<open>
  \<^verbatim>\<open>buildGraph\<close> fills two arrays and two maps while it walks the notes; \<open>builder\<close>
  holds the four. Each note contributes its node, one edge per link, then per tag the
  tag node (on first sight) and an edge, then the folder node (on first sight) and an
  edge unless the folder is empty or the dot.
\<close>

record builder =
  b_nodes :: "graph_node list"
  b_edges :: "graph_edge list"
  tagNodes :: "(string, graph_node) js_map"
  folderNodes :: "(string, graph_node) js_map"

definition note_node_of :: "Note \<Rightarrow> graph_node" where
  "note_node_of n =
     \<lparr>node_id = path n, node_title = title n, node_type = note_node,
      metadata = Some \<lparr>meta_tags = tags n, wordCount = length (content n),
                       linkCount = length (opt_list (links n))\<rparr>\<rparr>"

definition push_link_edge :: "snapshot \<Rightarrow> Note \<Rightarrow> link \<Rightarrow> builder \<Rightarrow> builder" where
  "push_link_edge s n l st =
     st\<lparr>b_edges := b_edges st @
          [\<lparr>edge_source = path n, edge_target = resolveNotePath s (link_target l),
            edge_type = link_edge (link_type l), weight = 1\<rparr>]\<rparr>"

definition push_tag :: "Note \<Rightarrow> string \<Rightarrow> builder \<Rightarrow> builder" where
  "push_tag n tag st =
     (let st' = (if \<not> Map_has (tagNodes st) tag
                 then (let tagNode = \<lparr>node_id = ''tag:'' @ tag, node_title = tag,
                                       node_type = tag_node, metadata = None\<rparr>
                       in st\<lparr>tagNodes := Map_set (tagNodes st) tag tagNode,
                             b_nodes := b_nodes st @ [tagNode]\<rparr>)
                 else st)
      in st'\<lparr>b_edges := b_edges st' @
            [\<lparr>edge_source = path n, edge_target = ''tag:'' @ tag,
              edge_type = tagged_with, weight = 1\<rparr>]\<rparr>)"

definition push_folder :: "Note \<Rightarrow> builder \<Rightarrow> builder" where
  "push_folder n st =
     (let folder = getFolder (path n)
      in if folder \<noteq> [] \<and> folder \<noteq> ''.''
         then (let st' = (if \<not> Map_has (folderNodes st) folder
                          then (let folderNode = \<lparr>node_id = ''folder:'' @ folder,
                                                   node_title = folder,
                                                   node_type = folder_node, metadata = None\<rparr>
                                in st\<lparr>folderNodes := Map_set (folderNodes st) folder folderNode,
                                      b_nodes := b_nodes st @ [folderNode]\<rparr>)
                          else st)
               in st'\<lparr>b_edges := b_edges st' @
                     [\<lparr>edge_source = path n, edge_target = ''folder:'' @ folder,
                       edge_type = in_folder, weight = 1\<rparr>]\<rparr>)
         else st)"

definition add_note :: "snapshot \<Rightarrow> Note \<Rightarrow> builder \<Rightarrow> builder" where
  "add_note s n st =
     (let st1 = st\<lparr>b_nodes := b_nodes st @ [note_node_of n]\<rparr>;
          st2 = (case links n of None \<Rightarrow> st1
                 | Some ls \<Rightarrow> fold (push_link_edge s n) ls st1);
          st3 = (case tags n of None \<Rightarrow> st2
                 | Some ts \<Rightarrow> fold (push_tag n) ts st2)
      in push_folder n st3)"

definition buildGraph :: "snapshot \<Rightarrow> knowledge_graph" where
  "buildGraph s =
     (let st = fold (add_note s) (Map_values s)
                 \<lparr>b_nodes = [], b_edges = [], tagNodes = [], folderNodes = []\<rparr>
      in \<lparr>nodes = b_nodes st, edges = b_edges st\<rparr>)"

subsection \<open>Analysis\<close>

text \<open>
  \<^verbatim>\<open>Array.prototype.sort\<close> is stable, and so is \<open>sort_key\<close>; sorting by the
  negated count gives the descending order of the comparator
  \<^verbatim>\<open>(a, b) => b[1] - a[1]\<close>.
\<close>

definition linkCount_of :: "Note \<Rightarrow> int" where
  "linkCount_of n = int (length (opt_list (links n))) + int (length (opt_list (backlinks n)))"

definition count_note :: "Note \<Rightarrow> (string, int) js_map \<times> string list \<Rightarrow>
    (string, int) js_map \<times> string list" where
  "count_note n st =
     (let linkCount = linkCount_of n
      in (Map_set (fst st) (path n) linkCount,
          if linkCount = 0 then snd st @ [path n] else snd st))"

definition analyzeGraph :: "snapshot \<Rightarrow> graph_analysis" where
  "analyzeGraph s =
     (let (connectionCounts, orphans) = fold count_note (Map_values s) ([], []);
          mostConnected = take 10 (sort_key (\<lambda>e. - snd e) connectionCounts);
          graph = buildGraph s
      in \<lparr>totalNodes = length (filter (\<lambda>n. node_type n = note_node) (nodes graph)),
          totalEdges = length (edges graph),
          mostConnectedNodes = mostConnected,
          orphanNotes = orphans\<rparr>)"

subsection \<open>Link suggestions\<close>

text \<open>
  \<^verbatim>\<open>toLowerCase\<close> on code units below 256: the letters \<open>A\<close> to \<open>Z\<close> and the
  capital letters of the Latin-1 block, U+00C0 to U+00DE without the multiplication
  sign U+00D7, move up by 32; every other code unit stays.
\<close>

definition lower_unit :: "char \<Rightarrow> char" where
  "lower_unit c =
     (let k = (of_char c :: nat)
      in if (65 \<le> k \<and> k \<le> 90) \<or> (192 \<le> k \<and> k \<le> 222 \<and> k \<noteq> 215)
         then char_of (k + 32) else c)"

definition toLowerCase :: "string \<Rightarrow> string" where
  "toLowerCase t = map lower_unit t"

text \<open>
  The class \<^verbatim>\<open>\s\<close> on code units below 256: tab, line feed, vertical tab, form
  feed, carriage return, space and the no-break space U+00A0.
\<close>

definition is_space :: "char \<Rightarrow> bool" where
  "is_space c = ((of_char c :: nat) \<in> {9, 10, 11, 12, 13, 32, 160})"

text \<open>
  \<^verbatim>\<open>split(/\s+/)\<close>: the pieces between maximal runs of white space; a run at
  either end leaves an empty piece there, and a string without white space is its own
  single piece.
\<close>

function split_ws :: "string \<Rightarrow> string list" where
  "split_ws t =
     (case dropWhile (\<lambda>c. \<not> is_space c) t of
        [] \<Rightarrow> [t]
      | c # rest \<Rightarrow> takeWhile (\<lambda>c. \<not> is_space c) t # split_ws (dropWhile is_space rest))"
  by pat_completeness auto

lemma split_ws_shorter:
  "dropWhile (\<lambda>c. \<not> is_space c) t = c # rest \<Longrightarrow> length (dropWhile is_space rest) < length t"
proof -
  assume "dropWhile (\<lambda>c. \<not> is_space c) t = c # rest"
  then have "Suc (length rest) \<le> length t"
    using length_dropWhile_le [of "\<lambda>c. \<not> is_space c" t] by simp
  moreover have "length (dropWhile is_space rest) \<le> length rest"
    by (rule length_dropWhile_le)
  ultimately show ?thesis by simp
qed

termination split_ws
  by (relation "measure length") (simp_all add: split_ws_shorter)

declare split_ws.simps [simp del]

text \<open>\<^verbatim>\<open>scores.set(k, (scores.get(k) || 0) + x)\<close>\<close>

definition bump :: "(string, int) js_map \<Rightarrow> string \<Rightarrow> int \<Rightarrow> (string, int) js_map" where
  "bump scores k x =
     Map_set scores k ((case Map_get scores k of None \<Rightarrow> 0 | Some v \<Rightarrow> v) + x)"

definition score_tags :: "string \<Rightarrow> string list \<Rightarrow> Note \<Rightarrow> (string, int) js_map \<Rightarrow>
    (string, int) js_map" where
  "score_tags notePath noteTags otherNote scores =
     (if path otherNote = notePath then scores
      else case tags otherNote of
             None \<Rightarrow> scores
           | Some otherTags \<Rightarrow>
               (let sharedTags = filter (\<lambda>tag. tag \<in> set otherTags) noteTags
                in if length sharedTags > 0
                   then bump scores (path otherNote) (int (length sharedTags) * 10)
                   else scores))"

definition score_title :: "string \<Rightarrow> string set \<Rightarrow> Note \<Rightarrow> (string, int) js_map \<Rightarrow>
    (string, int) js_map" where
  "score_title notePath noteWords otherNote scores =
     (if path otherNote = notePath then scores
      else (let otherWords = split_ws (toLowerCase (title otherNote));
                commonWords = filter (\<lambda>word. word \<in> noteWords \<and> length word > 3) otherWords
            in if length commonWords > 0
               then bump scores (path otherNote) (int (length commonWords) * 5)
               else scores))"

definition score_folder :: "string \<Rightarrow> string \<Rightarrow> Note \<Rightarrow> (string, int) js_map \<Rightarrow>
    (string, int) js_map" where
  "score_folder notePath folder otherNote scores =
     (if path otherNote = notePath then scores
      else if getFolder (path otherNote) = folder then bump scores (path otherNote) 3
      else scores)"

text \<open>
  \<^verbatim>\<open>slice(0, limit)\<close> keeps the first \<open>limit\<close> entries; as in JavaScript, an
  end below zero is counted from the end of the array.
\<close>

definition slice_to :: "'a list \<Rightarrow> int \<Rightarrow> 'a list" where
  "slice_to xs k = (if k < 0 then take (nat (int (length xs) + k)) xs else take (nat k) xs)"

definition suggestRelatedNotes :: "snapshot \<Rightarrow> string \<Rightarrow> int \<Rightarrow> (string \<times> int) list" where
  "suggestRelatedNotes s notePath limit =
     (case Map_get s notePath of
        None \<Rightarrow> []
      | Some note \<Rightarrow>
          (let scores1 = (case tags note of
                            None \<Rightarrow> []
                          | Some noteTags \<Rightarrow>
                              fold (score_tags notePath noteTags) (Map_values s) []);
               noteWords = set (split_ws (toLowerCase (title note)));
               scores2 = fold (score_title notePath noteWords) (Map_values s) scores1;
               folder = getFolder notePath;
               scores3 = fold (score_folder notePath folder) (Map_values s) scores2
           in slice_to (sort_key (\<lambda>e. - snd e) scores3) limit))"

subsection \<open>The score, in the words of the specification\<close>

text \<open>
  Ten for every tag the two notes share, five for every occurrence in the candidate's
  lower-cased, white-space-split title of a word longer than three characters that also
  occurs in the source's title, and three when the two folders are equal.
\<close>

definition title_words :: "Note \<Rightarrow> string list" where
  "title_words n = split_ws (toLowerCase (title n))"

definition score_spec :: "Note \<Rightarrow> Note \<Rightarrow> int" where
  "score_spec src cand =
     10 * int (card (set (opt_list (tags src)) \<inter> set (opt_list (tags cand))))
     + 5 * int (length (filter (\<lambda>w. length w > 3 \<and> w \<in> set (title_words src))
                          (title_words cand)))
     + (if getFolder (path cand) = getFolder (path src) then 3 else 0)"

subsection \<open>Link resolution, in the words of the specification\<close>

text \<open>
  Normalise the raw target by appending the suffix when it is absent; when a note has
  the normalised string as its path, answer it; otherwise answer the path of the first
  note, in iteration order, whose title is the raw target or whose path ends with a
  slash followed by the normalised string; otherwise answer the normalised string.
\<close>

definition resolve_spec :: "snapshot \<Rightarrow> string \<Rightarrow> string" where
  "resolve_spec s t =
     (let normalized = (if endsWith t ''.md'' then t else t @ ''.md'')
      in if normalized \<in> set (map path (Map_values s)) then normalized
         else case find (\<lambda>n. title n = t \<or> endsWith (path n) (''/'' @ normalized))
                     (Map_values s) of
                Some n \<Rightarrow> path n
              | None \<Rightarrow> normalized)"

subsection \<open>What a note contributes to the graph\<close>

text \<open>
  For the proofs about \<^verbatim>\<open>buildGraph\<close>: the ids of the nodes built so far, the
  note nodes among them, the edges a note emits (they do not depend on the builder),
  the ids a note makes sure of, and the invariant that every tag and folder recorded
  in the two maps has its node.
\<close>

definition ids :: "builder \<Rightarrow> string set" where
  "ids st = node_id ` set (b_nodes st)"

definition note_nodes :: "builder \<Rightarrow> graph_node list" where
  "note_nodes st = filter (\<lambda>v. node_type v = note_node) (b_nodes st)"

definition tag_inv :: "builder \<Rightarrow> bool" where
  "tag_inv st =
     ((\<forall>t. Map_has (tagNodes st) t \<longrightarrow> ''tag:'' @ t \<in> ids st) \<and>
      (\<forall>f. Map_has (folderNodes st) f \<longrightarrow> ''folder:'' @ f \<in> ids st))"

definition link_edge_of :: "snapshot \<Rightarrow> Note \<Rightarrow> link \<Rightarrow> graph_edge" where
  "link_edge_of s n l =
     \<lparr>edge_source = path n, edge_target = resolveNotePath s (link_target l),
      edge_type = link_edge (link_type l), weight = 1\<rparr>"

definition tag_edge_of :: "Note \<Rightarrow> string \<Rightarrow> graph_edge" where
  "tag_edge_of n tag =
     \<lparr>edge_source = path n, edge_target = ''tag:'' @ tag, edge_type = tagged_with, weight = 1\<rparr>"

definition has_folder :: "Note \<Rightarrow> bool" where
  "has_folder n = (getFolder (path n) \<noteq> [] \<and> getFolder (path n) \<noteq> ''.'')"

definition folder_edges_of :: "Note \<Rightarrow> graph_edge list" where
  "folder_edges_of n =
     (if has_folder n
      then [\<lparr>edge_source = path n, edge_target = ''folder:'' @ getFolder (path n),
              edge_type = in_folder, weight = 1\<rparr>]
      else [])"

definition note_edges :: "snapshot \<Rightarrow> Note \<Rightarrow> graph_edge list" where
  "note_edges s n =
     map (link_edge_of s n) (opt_list (links n)) @ map (tag_edge_of n) (opt_list (tags n))
       @ folder_edges_of n"

definition is_link_edge :: "graph_edge \<Rightarrow> bool" where
  "is_link_edge e = (case edge_type e of link_edge t \<Rightarrow> True | _ \<Rightarrow> False)"

definition note_ids :: "Note \<Rightarrow> string set" where
  "note_ids n =
     insert (path n) ((\<lambda>t. ''tag:'' @ t) ` set (opt_list (tags n)))
       \<union> (if has_folder n then {''folder:'' @ getFolder (path n)} else {})"

definition after_links :: "snapshot \<Rightarrow> Note \<Rightarrow> builder \<Rightarrow> builder" where
  "after_links s n st =
     st\<lparr>b_nodes := b_nodes st @ [note_node_of n],
        b_edges := b_edges st @ map (link_edge_of s n) (opt_list (links n))\<rparr>"

definition empty_builder :: builder where
  "empty_builder = \<lparr>b_nodes = [], b_edges = [], tagNodes = [], folderNodes = []\<rparr>"

subsection \<open>The three scoring passes as one\<close>

text \<open>
  Each of the three loops of \<^verbatim>\<open>suggestRelatedNotes\<close> skips the source note and adds
  to the candidate's entry when its own points are positive; \<open>add_score\<close> is that
  common shape, and \<open>all_scores\<close> is the map after the third loop.
\<close>

definition get0 :: "(string, int) js_map \<Rightarrow> string \<Rightarrow> int" where
  "get0 scores k = (case Map_get scores k of None \<Rightarrow> 0 | Some v \<Rightarrow> v)"

definition add_score :: "string \<Rightarrow> (Note \<Rightarrow> int) \<Rightarrow> Note \<Rightarrow> (string, int) js_map \<Rightarrow>
    (string, int) js_map" where
  "add_score notePath g otherNote scores =
     (if path otherNote = notePath then scores
      else if g otherNote > 0 then bump scores (path otherNote) (g otherNote)
      else scores)"

definition tag_points :: "Note \<Rightarrow> Note \<Rightarrow> int" where
  "tag_points src cand =
     int (length (filter (\<lambda>tag. tag \<in> set (opt_list (tags cand))) (opt_list (tags src)))) * 10"

definition title_points :: "Note \<Rightarrow> Note \<Rightarrow> int" where
  "title_points src cand =
     int (length (filter (\<lambda>word. word \<in> set (title_words src) \<and> length word > 3)
                    (title_words cand))) * 5"

definition folder_points :: "string \<Rightarrow> Note \<Rightarrow> int" where
  "folder_points folder cand = (if getFolder (path cand) = folder then 3 else 0)"

definition all_scores :: "snapshot \<Rightarrow> string \<Rightarrow> Note \<Rightarrow> (string, int) js_map" where
  "all_scores s notePath src =
     fold (add_score notePath (folder_points (getFolder notePath))) (Map_values s)
       (fold (add_score notePath (title_points src)) (Map_values s)
          (fold (add_score notePath (tag_points src)) (Map_values s) []))"

subsection \<open>Example vaults\<close>

text \<open>
  Notes as the local note store hands them over: a note without links has no
  \<^verbatim>\<open>links\<close> field, and the backlinks of a note are the link records of the
  notes that point at it.
\<close>

definition mk_link :: "string \<Rightarrow> string \<Rightarrow> link" where
  "mk_link src tgt = \<lparr>link_source = src, link_target = tgt, link_type = internal\<rparr>"

definition mk_note ::
    "string \<Rightarrow> string \<Rightarrow> string list \<Rightarrow> string list \<Rightarrow> string list \<Rightarrow> Note" where
  "mk_note name t tgs tgts srcs =
     \<lparr>path = name @ ''.md'', title = t, content = [], tags = Some tgs,
      links = (if tgts = [] then None else Some (map (mk_link (name @ ''.md'')) tgts)),
      backlinks = Some (map (\<lambda>src. mk_link (src @ ''.md'') name) srcs)\<rparr>"

text \<open>Notes \<open>a \<rightarrow> b \<rightarrow> c\<close> and an isolated \<open>d\<close>.\<close>

definition chain_vault :: "Note list" where
  "chain_vault =
     [mk_note ''a'' ''A'' [] [''b''] [],
      mk_note ''b'' ''B'' [] [''c''] [''a''],
      mk_note ''c'' ''C'' [] [] [''b''],
      mk_note ''d'' ''D'' [] [] []]"

text \<open>
  Note \<open>a\<close> links to \<open>b\<close> and to \<open>c\<close>; \<open>c\<close> is also at the end of the detour
  \<open>a \<rightarrow> b \<rightarrow> e \<rightarrow> c\<close>, and \<open>c\<close> links to \<open>d\<close>.
\<close>

definition detour_vault :: "Note list" where
  "detour_vault =
     [mk_note ''a'' ''A'' [] [''b'', ''c''] [],
      mk_note ''b'' ''B'' [] [''e''] [''a''],
      mk_note ''c'' ''C'' [] [''d''] [''a'', ''e''],
      mk_note ''d'' ''D'' [] [] [''c''],
      mk_note ''e'' ''E'' [] [''c''] [''b'']]"

text \<open>Note \<open>a\<close> links to \<open>b\<close> and to a note that does not exist.\<close>

definition ghost_vault :: "Note list" where
  "ghost_vault =
     [mk_note ''a'' ''A'' [] [''b'', ''ghost''] [],
      mk_note ''b'' ''B'' [] [] [''a'']]"

text \<open>
  Two notes in one folder that share a tag and a title word, with a doubled link and
  a link to nowhere, and two notes without any link.
\<close>

definition project_vault :: "Note list" where
  "project_vault =
     [mk_note ''work/x'' ''Project Plan'' [''t1'', ''t2''] [''y'', ''y'', ''nowhere''] [],
      mk_note ''work/y'' ''Project  notes PROJECT'' [''t2''] [] [''work/x'', ''work/x''],
      mk_note ''z'' ''Zebra'' [''t1''] [] [],
      mk_note ''w'' ''Walrus'' [] [] []]"

text \<open>
  Titles beyond ASCII: a capital E with acute accent (U+00C9) against the small one
  (U+00E9), and two words joined by a no-break space (U+00A0).
\<close>

definition accent_vault :: "Note list" where
  "accent_vault =
     [mk_note ''p/a'' (CHR 0xC9 # ''COLE'') [] [] [],
      mk_note ''q/b'' (CHR 0xE9 # ''cole'') [] [] []]"

definition nbsp_vault :: "Note list" where
  "nbsp_vault =
     [mk_note ''p/a'' (''alpha'' @ CHR 0xA0 # ''beta'') [] [] [],
      mk_note ''q/b'' ''Beta'' [] [] []]"

section \<open>Properties\<close>

subsection \<open>Snapshots\<close>

lemma set_update_subset: "set (AList.update k v al) \<subseteq> insert (k, v) (set al)"
  by (induction al) auto

lemma wf_snapshot_set: "wf_snapshot m \<Longrightarrow> wf_snapshot (Map_set m (path n) n)"
  using set_update_subset [of "path n" n m]
  by (auto simp: wf_snapshot_def Map_set_def distinct_update list_all_iff)

lemma wf_snapshot_fold:
  "wf_snapshot m \<Longrightarrow> wf_snapshot (fold (\<lambda>n m. Map_set m (path n) n) ns m)"
  by (induction ns arbitrary: m) (simp_all add: wf_snapshot_set)

lemma wf_snapshot_updateNotes: "wf_snapshot (updateNotes ns)"
  unfolding updateNotes_def by (rule wf_snapshot_fold) (simp add: wf_snapshot_def)

lemma wf_snapshot_key: "wf_snapshot s \<Longrightarrow> (k, n) \<in> set s \<Longrightarrow> path n = k"
  by (auto simp: wf_snapshot_def list_all_iff)

lemma wf_snapshot_get: "wf_snapshot s \<Longrightarrow> Map_get s k = Some n \<Longrightarrow> path n = k"
  by (auto simp: Map_get_def dest: map_of_SomeD wf_snapshot_key)

lemma wf_snapshot_paths: "wf_snapshot s \<Longrightarrow> map path (Map_values s) = map fst s"
proof -
  assume "wf_snapshot s"
  then have "list_all (\<lambda>(k, n). path n = k) s" by (simp add: wf_snapshot_def)
  then have "map path (map snd s) = map fst s" by (induction s) auto
  then show ?thesis by (simp add: Map_values_def del: map_map)
qed

lemma Map_has_paths:
  "wf_snapshot s \<Longrightarrow> Map_has s k = (k \<in> set (map path (Map_values s)))"
  by (simp add: wf_snapshot_paths Map_has_def map_of_eq_None_iff)

subsection \<open>Link resolution\<close>

lemma find_by_title_find:
  "list_all (\<lambda>(k, n). path n = k) s \<Longrightarrow>
   find_by_title s t nm =
     map_option path (find (\<lambda>n. title n = t \<or> endsWith (path n) (''/'' @ nm)) (map snd s))"
  by (induction s) auto

text \<open>
  Claim C4. On every snapshot and every raw link target, \<^verbatim>\<open>resolveNotePath\<close>
  computes what the specification's description of the resolver computes: the suffix
  is appended when absent, an exact match on the path wins, then the first note in
  iteration order that matches by title or by the end of its path, and without any
  match the normalised string comes back although it names no note.
\<close>

theorem resolveNotePath_follows_spec:
  "resolveNotePath (updateNotes ns) t = resolve_spec (updateNotes ns) t"
proof -
  have wf: "wf_snapshot (updateNotes ns)" by (rule wf_snapshot_updateNotes)
  then have "list_all (\<lambda>(k, n). path n = k) (updateNotes ns)"
    by (simp add: wf_snapshot_def)
  then show ?thesis
    by (simp add: resolveNotePath_def resolve_spec_def Let_def Map_has_paths [OF wf]
        find_by_title_find Map_values_def split: option.splits)
qed

theorem resolveNotePath_follows_spec_witness:
  "resolve_spec (updateNotes project_vault) ''z.md'' = ''z.md'' \<and>
   resolve_spec (updateNotes project_vault) ''Zebra'' = ''z.md'' \<and>
   resolve_spec (updateNotes project_vault) ''y'' = ''work/y.md'' \<and>
   resolve_spec (updateNotes project_vault) ''nowhere'' = ''nowhere.md''"
proof -
  have "resolveNotePath (updateNotes project_vault) ''z.md'' = ''z.md''"
    and "resolveNotePath (updateNotes project_vault) ''Zebra'' = ''z.md''"
    and "resolveNotePath (updateNotes project_vault) ''y'' = ''work/y.md''"
    and "resolveNotePath (updateNotes project_vault) ''nowhere'' = ''nowhere.md''"
    by code_simp+
  then show ?thesis
    by (simp add: resolveNotePath_follows_spec [of project_vault, symmetric])
qed

subsection \<open>Shortest path\<close>

lemma linked_snoc:
  "r \<noteq> [] \<Longrightarrow> linked s (r @ [t]) = (linked s r \<and> t \<in> set (successors s (last r)))"
  by (induction s r rule: linked.induct) auto

lemma linked_prefix: "linked s (xs @ ys) \<Longrightarrow> linked s xs"
  by (induction s xs rule: linked.induct) auto

lemma route_from_prefix: "route_from s a (xs @ ys) \<Longrightarrow> xs \<noteq> [] \<Longrightarrow> route_from s a xs"
  by (auto simp: route_from_def dest: linked_prefix)

lemma route_from_snoc:
  "route_from s a r \<Longrightarrow> t \<in> set (successors s (last r)) \<Longrightarrow> route_from s a (r @ [t])"
  by (simp add: route_from_def linked_snoc)

lemma route_from_snocD:
  "route_from s a (xs @ [u]) \<Longrightarrow> xs \<noteq> [] \<Longrightarrow> u \<in> set (successors s (last xs))"
  by (simp add: route_from_def linked_snoc)

lemma frontier:
  assumes inv: "bfs_inv s a b queue visited"
    and r: "route_from s a r" and l: "last r \<notin> visited"
  shows "\<exists>e \<in> set queue. length (snd e) \<le> length r"
proof -
  from r have "r \<noteq> []" by (simp add: route_from_def)
  with l have "\<exists>x \<in> set r. x \<notin> visited" using last_in_set by blast
  then obtain xs u ys where split: "r = xs @ u # ys" "u \<notin> visited" "\<forall>y \<in> set xs. \<not> y \<notin> visited"
    by (auto dest!: split_list_first_prop)
  have "route_from s a (xs @ [u])"
    using r split(1) route_from_prefix [of s a "xs @ [u]" ys] by simp
  moreover have "xs = [] \<or> last xs \<in> visited"
    using split(3) by (cases "xs = []") auto
  ultimately obtain r' where "(u, r') \<in> set queue" "length r' \<le> Suc (length xs)"
    using inv split(2) unfolding bfs_inv_def by blast
  then show ?thesis using split(1) by force
qed

lemma head_shortest:
  assumes "bfs_inv s a b ((p, route) # queue) visited" and "e \<in> set ((p, route) # queue)"
  shows "length route \<le> length (snd e)"
  using assms by (auto simp: bfs_inv_def)

lemma head_shortest_route:
  assumes "bfs_inv s a b ((p, route) # queue) visited"
    and "route_from s a r" and "last r \<notin> visited"
  shows "length route \<le> length r"
  using frontier [OF assms] head_shortest [OF assms(1)] by (meson le_trans)

lemma bfs_inv_init: "bfs_inv s a b [(a, [a])] {}"
  by (auto simp: bfs_inv_def route_from_def)

lemma bfs_inv_drop:
  assumes inv: "bfs_inv s a b ((p, route) # queue) visited" and vis: "p \<in> visited"
  shows "bfs_inv s a b queue visited"
  unfolding bfs_inv_def
proof (intro conjI)
  show "\<forall>(p, r) \<in> set queue. route_from s a r \<and> last r = p"
    using inv by (auto simp: bfs_inv_def)
  show "sorted (map (length \<circ> snd) queue)"
    using inv by (simp add: bfs_inv_def)
  show "\<forall>e \<in> set queue. length (snd e) \<le> Suc (length (snd (hd queue)))"
  proof
    fix e assume e: "e \<in> set queue"
    then have "hd queue \<in> set ((p, route) # queue)" by (cases queue) auto
    then have "length route \<le> length (snd (hd queue))"
      by (rule head_shortest [OF inv])
    moreover have "length (snd e) \<le> Suc (length route)"
      using inv e by (auto simp: bfs_inv_def)
    ultimately show "length (snd e) \<le> Suc (length (snd (hd queue)))" by simp
  qed
  show "b \<notin> visited" using inv by (simp add: bfs_inv_def)
  show "\<forall>xs u. route_from s a (xs @ [u]) \<and> u \<notin> visited \<and> (xs = [] \<or> last xs \<in> visited)
         \<longrightarrow> (\<exists>r. (u, r) \<in> set queue \<and> length r \<le> Suc (length xs))"
  proof (intro allI impI)
    fix xs u
    assume h: "route_from s a (xs @ [u]) \<and> u \<notin> visited \<and> (xs = [] \<or> last xs \<in> visited)"
    then obtain r where "(u, r) \<in> set ((p, route) # queue)" "length r \<le> Suc (length xs)"
      using inv unfolding bfs_inv_def by blast
    moreover have "u \<noteq> p" using h vis by auto
    ultimately show "\<exists>r. (u, r) \<in> set queue \<and> length r \<le> Suc (length xs)" by auto
  qed
qed

lemma bfs_inv_expand:
  assumes inv: "bfs_inv s a b ((p, route) # queue) visited"
    and nb: "p \<noteq> b" and nv: "p \<notin> visited"
  shows "bfs_inv s a b
           (queue @ map (\<lambda>t. (t, route @ [t]))
                      (filter (\<lambda>t. t \<notin> insert p visited) (successors s p)))
           (insert p visited)"
    (is "bfs_inv s a b (queue @ ?new) ?visited'")
  unfolding bfs_inv_def
proof (intro conjI)
  have head: "route_from s a route" "last route = p"
    using inv by (auto simp: bfs_inv_def)
  have lower: "length route \<le> length (snd e)" if "e \<in> set (queue @ ?new)" for e
    using that head_shortest [OF inv, of e] by auto
  have upper: "length (snd e) \<le> Suc (length route)" if "e \<in> set (queue @ ?new)" for e
    using that inv by (auto simp: bfs_inv_def)
  show "\<forall>(p, r) \<in> set (queue @ ?new). route_from s a r \<and> last r = p"
    using inv head by (auto simp: bfs_inv_def route_from_snoc)
  show "sorted (map (length \<circ> snd) (queue @ ?new))"
  proof -
    have "sorted (map (length \<circ> snd) queue)" using inv by (simp add: bfs_inv_def)
    moreover have "sorted (map (length \<circ> snd) ?new)"
      by (simp add: comp_def sorted_iff_nth_mono)
    moreover have "\<forall>x \<in> set queue. \<forall>y \<in> set ?new. length (snd x) \<le> length (snd y)"
      using upper by auto
    ultimately show ?thesis by (simp add: sorted_append)
  qed
  show "\<forall>e \<in> set (queue @ ?new). length (snd e) \<le> Suc (length (snd (hd (queue @ ?new))))"
  proof
    fix e assume e: "e \<in> set (queue @ ?new)"
    then have "queue @ ?new \<noteq> []" by (metis empty_iff list.set(1))
    then have "hd (queue @ ?new) \<in> set (queue @ ?new)" by (rule hd_in_set)
    then have "length route \<le> length (snd (hd (queue @ ?new)))" by (rule lower)
    with upper [OF e] show "length (snd e) \<le> Suc (length (snd (hd (queue @ ?new))))"
      by simp
  qed
  show "b \<notin> ?visited'" using inv nb by (simp add: bfs_inv_def)
  show "\<forall>xs u. route_from s a (xs @ [u]) \<and> u \<notin> ?visited' \<and> (xs = [] \<or> last xs \<in> ?visited')
         \<longrightarrow> (\<exists>r. (u, r) \<in> set (queue @ ?new) \<and> length r \<le> Suc (length xs))"
  proof (intro allI impI)
    fix xs u
    assume h: "route_from s a (xs @ [u]) \<and> u \<notin> ?visited' \<and> (xs = [] \<or> last xs \<in> ?visited')"
    then have r: "route_from s a (xs @ [u])" and u: "u \<notin> visited" "u \<noteq> p" by auto
    show "\<exists>r. (u, r) \<in> set (queue @ ?new) \<and> length r \<le> Suc (length xs)"
    proof (cases "xs \<noteq> [] \<and> last xs = p")
      case True
      then have "u \<in> set (successors s p)" using route_from_snocD [OF r] by auto
      then have "(u, route @ [u]) \<in> set ?new" using u by auto
      moreover have "route_from s a xs" using r True route_from_prefix by blast
      then have "length route \<le> length xs"
        using head_shortest_route [OF inv, of xs] True nv by simp
      ultimately show ?thesis by force
    next
      case False
      then have "xs = [] \<or> last xs \<in> visited" using h by auto
      then obtain r' where "(u, r') \<in> set ((p, route) # queue)" "length r' \<le> Suc (length xs)"
        using inv r u(1) unfolding bfs_inv_def by blast
      then show ?thesis using u(2) by auto
    qed
  qed
qed

lemma findPath_loop_correct:
  "bfs_inv s a b queue visited \<Longrightarrow>
   (case findPath_loop s b queue visited of
      None \<Rightarrow> \<not> (\<exists>r. route_from s a r \<and> last r = b)
    | Some r \<Rightarrow> route_from s a r \<and> last r = b \<and>
               (\<forall>r'. route_from s a r' \<and> last r' = b \<longrightarrow> length r \<le> length r'))"
proof (induction s b queue visited rule: findPath_loop.induct)
  case (1 s b visited)
  have "\<not> (\<exists>r. route_from s a r \<and> last r = b)"
  proof
    assume "\<exists>r. route_from s a r \<and> last r = b"
    then obtain r where "route_from s a r" "last r = b" by blast
    moreover have "b \<notin> visited" using "1.prems" by (simp add: bfs_inv_def)
    ultimately show False using frontier [OF "1.prems", of r] by simp
  qed
  then show ?case by simp
next
  case (2 s b p route queue visited)
  note inv = "2.prems"
  show ?case
  proof (cases "p = b")
    case True
    have "route_from s a route" "last route = b"
      using inv True by (auto simp: bfs_inv_def)
    moreover have "length route \<le> length r'" if "route_from s a r'" "last r' = b" for r'
    proof -
      have "b \<notin> visited" using inv by (simp add: bfs_inv_def)
      then show ?thesis using head_shortest_route [OF inv that(1)] that(2) by simp
    qed
    ultimately show ?thesis using True by simp
  next
    case nb: False
    show ?thesis
    proof (cases "p \<in> visited")
      case True
      then show ?thesis using nb "2.IH"(1) bfs_inv_drop [OF inv] by simp
    next
      case nv: False
      have inv': "bfs_inv s a b
           (queue @ map (\<lambda>t. (t, route @ [t]))
                      (filter (\<lambda>t. t \<notin> insert p visited) (successors s p)))
           (insert p visited)"
        by (rule bfs_inv_expand [OF inv nb nv])
      show ?thesis
      proof (cases "Map_get s p")
        case None
        then have "bfs_inv s a b queue (insert p visited)"
          using inv' by (simp add: successors_def)
        then show ?thesis using nb nv None "2.IH"(2) by simp
      next
        case (Some n)
        then have "bfs_inv s a b
            (push_links s (opt_list (links n)) (insert p visited) route queue) (insert p visited)"
          using inv' by (simp add: successors_def push_links_eq link_targets_def)
        then show ?thesis using nb nv Some "2.IH"(3) by simp
      qed
    qed
  qed
qed

lemma reach_route:
  "(a, b) \<in> (link_rel s)\<^sup>* \<longleftrightarrow> (\<exists>r. route_from s a r \<and> last r = b)"
proof
  assume "(a, b) \<in> (link_rel s)\<^sup>*"
  then show "\<exists>r. route_from s a r \<and> last r = b"
  proof (induction rule: rtrancl_induct)
    case base
    have "route_from s a [a] \<and> last [a] = a" by (simp add: route_from_def)
    then show ?case by blast
  next
    case (step y z)
    then obtain r where "route_from s a r" "last r = y" by blast
    moreover have "z \<in> set (successors s y)" using step.hyps(2) by (simp add: link_rel_def)
    ultimately have "route_from s a (r @ [z]) \<and> last (r @ [z]) = z"
      by (simp add: route_from_snoc)
    then show ?case by blast
  qed
next
  assume "\<exists>r. route_from s a r \<and> last r = b"
  then obtain r where "r \<noteq> []" "hd r = a" "linked s r" "last r = b"
    by (auto simp: route_from_def)
  then show "(a, b) \<in> (link_rel s)\<^sup>*"
  proof (induction s r arbitrary: a rule: linked.induct)
    case (3 s x y r)
    then have "(y, b) \<in> (link_rel s)\<^sup>*" by simp
    moreover have "(a, y) \<in> link_rel s" using "3.prems" by (simp add: link_rel_def)
    ultimately show ?case by (rule converse_rtrancl_into_rtrancl [rotated])
  qed simp_all
qed

text \<open>
  Claim C2. For every snapshot and every two different ids, \<^verbatim>\<open>findPath\<close>
  answers a route exactly when the goal is reachable from the start along resolved
  outgoing links (backlinks play no part in \<open>link_rel\<close>); the route it answers
  starts at the start, ends at the goal, joins consecutive entries by a resolved
  outgoing link, and no such route is shorter; otherwise the answer is none. The
  proof does not need the two ids to differ.
\<close>

theorem findPath_shortest:
  assumes "fromPath \<noteq> toPath"
  shows "(findPath s fromPath toPath \<noteq> None \<longleftrightarrow> (fromPath, toPath) \<in> (link_rel s)\<^sup>*) \<and>
         (\<forall>r. findPath s fromPath toPath = Some r \<longrightarrow>
            r \<noteq> [] \<and> hd r = fromPath \<and> last r = toPath \<and> linked s r \<and>
            (\<forall>r'. r' \<noteq> [] \<and> hd r' = fromPath \<and> last r' = toPath \<and> linked s r'
               \<longrightarrow> length r \<le> length r'))"
proof -
  have "case findPath s fromPath toPath of
      None \<Rightarrow> \<not> (\<exists>r. route_from s fromPath r \<and> last r = toPath)
    | Some r \<Rightarrow> route_from s fromPath r \<and> last r = toPath \<and>
               (\<forall>r'. route_from s fromPath r' \<and> last r' = toPath \<longrightarrow> length r \<le> length r')"
    unfolding findPath_def by (rule findPath_loop_correct [OF bfs_inv_init])
  then show ?thesis
    by (cases "findPath s fromPath toPath") (auto simp: reach_route route_from_def)
qed

theorem findPath_shortest_witness:
  "''a.md'' \<noteq> ''c.md'' \<and>
   findPath (updateNotes chain_vault) ''a.md'' ''c.md'' = Some [''a.md'', ''b.md'', ''c.md''] \<and>
   (''a.md'', ''c.md'') \<in> (link_rel (updateNotes chain_vault))\<^sup>* \<and>
   findPath (updateNotes chain_vault) ''c.md'' ''a.md'' = None \<and>
   (''c.md'', ''a.md'') \<notin> (link_rel (updateNotes chain_vault))\<^sup>*"
proof -
  have ne: "''a.md'' \<noteq> ''c.md''" by simp
  have fp: "findPath (updateNotes chain_vault) ''a.md'' ''c.md''
              = Some [''a.md'', ''b.md'', ''c.md'']"
    by code_simp
  have none: "findPath (updateNotes chain_vault) ''c.md'' ''a.md'' = None"
    by code_simp
  show ?thesis
    using findPath_shortest [OF ne, of "updateNotes chain_vault"]
      findPath_shortest [OF ne [symmetric], of "updateNotes chain_vault"] fp none ne
    by simp
qed

text \<open>
  Claim C9. For every snapshot and every id \<open>x\<close>, whether or not a note is stored
  under \<open>x\<close>, \<^verbatim>\<open>findPath(x, x)\<close> answers the one-element route \<open>[x]\<close>.
\<close>

theorem findPath_same: "findPath s x x = Some [x]"
  by (simp add: findPath_def)

subsection \<open>Related notes\<close>

lemma fold_invariant:
  "(\<And>x st. x \<in> set xs \<Longrightarrow> Q st \<Longrightarrow> Q (f x st)) \<Longrightarrow> Q st \<Longrightarrow> Q (fold f xs st)"
  by (induction xs arbitrary: st) simp_all

lemma traverse_cut: "maxDepth < int depth \<Longrightarrow> traverse s maxDepth p depth st = st"
  by (cases st) simp

lemma traverse_cut_fun:
  "maxDepth < int depth \<Longrightarrow> traverse s maxDepth p depth = (\<lambda>st. st)"
  by (rule ext) (simp add: traverse_cut)

lemma fold_skip: "fold (\<lambda>x st. st) xs = (\<lambda>st. st)"
  by (induction xs) simp_all

lemma Set_add_set: "set (Set_add xs x) = insert x (set xs)"
  by (auto simp: Set_add_def)

lemma traverse_related_present:
  "set (snd st) \<subseteq> {k. Map_has s k} \<Longrightarrow>
   set (snd (traverse s maxDepth p depth st)) \<subseteq> {k. Map_has s k}"
proof (induction s maxDepth p depth st rule: traverse.induct)
  case (1 s maxDepth p depth visited related)
  let ?Q = "\<lambda>st. set (snd st) \<subseteq> {k. Map_has s k}"
  show ?case
  proof (cases "maxDepth < int depth \<or> p \<in> visited")
    case True
    then show ?thesis using "1.prems" by auto
  next
    case go: False
    show ?thesis
    proof (cases "Map_get s p")
      case None
      then show ?thesis using go "1.prems" by simp
    next
      case (Some n)
      define related' where "related' = (if 0 < depth then Set_add related p else related)"
      define st1 where "st1 = (case links n of
                              None \<Rightarrow> (insert p visited, related')
                            | Some ls \<Rightarrow>
                                fold (\<lambda>l st. traverse s maxDepth
                                                (resolveNotePath s (link_target l)) (depth + 1) st)
                                  ls (insert p visited, related'))"
      define st2 where "st2 = (case backlinks n of
                              None \<Rightarrow> st1
                            | Some bs \<Rightarrow>
                                fold (\<lambda>l st. traverse s maxDepth (link_source l) (depth + 1) st)
                                  bs st1)"
      have res: "traverse s maxDepth p depth (visited, related) = st2"
        unfolding st2_def st1_def related'_def using go Some by (simp add: Let_def)
      have "Map_has s p" using Some by (simp add: Map_has_def Map_get_def)
      then have q0: "?Q (insert p visited, related')"
        using "1.prems" by (auto simp: related'_def Set_add_set)
      have q1: "?Q st1"
      proof (cases "links n")
        case None
        then show ?thesis using q0 by (simp add: st1_def)
      next
        case (Some ls)
        have "?Q (fold (\<lambda>l st. traverse s maxDepth
                      (resolveNotePath s (link_target l)) (depth + 1) st)
                  ls (insert p visited, related'))"
          by (rule fold_invariant [where Q = ?Q, OF _ q0])
            (rule "1.IH"(1) [OF go \<open>Map_get s p = Some n\<close> related'_def Some])
        then show ?thesis using Some by (simp add: st1_def)
      qed
      have "?Q st2"
      proof (cases "backlinks n")
        case None
        then show ?thesis using q1 by (simp add: st2_def)
      next
        case (Some bs)
        have "?Q (fold (\<lambda>l st. traverse s maxDepth (link_source l) (depth + 1) st) bs st1)"
          by (rule fold_invariant [where Q = ?Q, OF _ q1])
            (rule "1.IH"(2) [OF go \<open>Map_get s p = Some n\<close> related'_def st1_def Some])
        then show ?thesis using Some by (simp add: st2_def)
      qed
      then show ?thesis by (simp only: res)
    qed
  qed
qed

lemma map_filter_values:
  "set (List.map_filter (Map_get s) ks) \<subseteq> set (Map_values s)"
  by (auto simp: List.map_filter_def dest: Map_get_in_values)

text \<open>
  Claim C10. For every snapshot, start and depth bound, every note that
  \<^verbatim>\<open>getRelatedNotes\<close> returns is a note of the snapshot: the ids collected in
  \<^verbatim>\<open>related\<close> are all keys of the snapshot, because an id whose lookup fails
  is marked visited and the call returns before the id could be added; so the final
  lookup materialises every collected id and nothing else.
\<close>

theorem getRelatedNotes_present:
  "set (getRelatedNotes s notePath maxDepth) \<subseteq> set (Map_values s) \<and>
   set (snd (traverse s maxDepth notePath 0 ({}, []))) \<subseteq> {k. Map_has s k} \<and>
   length (getRelatedNotes s notePath maxDepth)
     = length (snd (traverse s maxDepth notePath 0 ({}, [])))"
proof -
  have pres: "set (snd (traverse s maxDepth notePath 0 ({}, []))) \<subseteq> {k. Map_has s k}"
    by (rule traverse_related_present) simp
  have "length (List.map_filter (Map_get s) ks) = length ks"
    if "set ks \<subseteq> {k. Map_has s k}" for ks
    using that by (induction ks) (auto simp: List.map_filter_def Map_has_def Map_get_def)
  then show ?thesis
    using pres by (simp add: getRelatedNotes_def split_beta map_filter_values)
qed

theorem getRelatedNotes_present_witness:
  "''ghost.md'' \<in> fst (traverse (updateNotes ghost_vault) 2 ''a.md'' 0 ({}, [])) \<and>
   map path (getRelatedNotes (updateNotes ghost_vault) ''a.md'' 2) = [''b.md''] \<and>
   set (getRelatedNotes (updateNotes ghost_vault) ''a.md'' 2)
     \<subseteq> set (Map_values (updateNotes ghost_vault))"
proof -
  have "fst (traverse (updateNotes ghost_vault) 2 ''a.md'' 0 ({}, []))
          = {''a.md'', ''b.md'', ''ghost.md''}"
    by code_simp
  moreover have "map path (getRelatedNotes (updateNotes ghost_vault) ''a.md'' 2) = [''b.md'']"
    by code_simp
  ultimately show ?thesis
    using getRelatedNotes_present [of "updateNotes ghost_vault" "''a.md''" 2] by simp
qed

text \<open>With depth bound 0 nothing is related: every neighbour is cut off at depth 1.\<close>

lemma getRelatedNotes_depth_zero: "getRelatedNotes s notePath 0 = []"
proof -
  have "snd (traverse s 0 notePath 0 ({}, [])) = []"
    by (simp add: traverse_cut_fun fold_skip Let_def split: option.splits)
  then show ?thesis by (simp add: getRelatedNotes_def split_beta List.map_filter_def)
qed

text \<open>
  Claim C3. The set of related notes is claimed to grow with the depth bound. On
  \<open>detour_vault\<close> it does not: with bound 2 the detour to \<open>c\<close> is cut off, \<open>c\<close>
  is then reached directly at depth 1 and \<open>d\<close> at depth 2; with bound 3 the detour
  reaches \<open>c\<close> first, at depth 3, marks it visited, and \<open>d\<close> beyond it is cut off
  and never reached again.
\<close>

theorem getRelatedNotes_depth_not_monotone:
  "map path (getRelatedNotes (updateNotes detour_vault) ''a.md'' 2)
     = [''b.md'', ''e.md'', ''c.md'', ''d.md''] \<and>
   map path (getRelatedNotes (updateNotes detour_vault) ''a.md'' 3)
     = [''b.md'', ''e.md'', ''c.md''] \<and>
   \<not> set (map path (getRelatedNotes (updateNotes detour_vault) ''a.md'' 2))
       \<subseteq> set (map path (getRelatedNotes (updateNotes detour_vault) ''a.md'' 3))"
proof -
  have two: "map path (getRelatedNotes (updateNotes detour_vault) ''a.md'' 2)
     = [''b.md'', ''e.md'', ''c.md'', ''d.md'']"
    by code_simp
  have three: "map path (getRelatedNotes (updateNotes detour_vault) ''a.md'' 3)
     = [''b.md'', ''e.md'', ''c.md'']"
    by code_simp
  show ?thesis unfolding two three by simp
qed

subsection \<open>Graph construction and analysis\<close>

lemma Map_has_set: "Map_has (Map_set m k v) k' = (k' = k \<or> Map_has m k')"
  by (simp add: Map_has_def Map_set_def update_conv')

lemma fold_push_link_edge:
  "fold (push_link_edge s n) ls st = st\<lparr>b_edges := b_edges st @ map (link_edge_of s n) ls\<rparr>"
  by (induction ls arbitrary: st) (simp_all add: push_link_edge_def link_edge_of_def)
lemma push_tag_inv: "tag_inv st \<Longrightarrow> tag_inv (push_tag n t st)"
  by (auto simp: push_tag_def tag_inv_def ids_def Let_def Map_has_set)

lemma push_tag_edges: "b_edges (push_tag n t st) = b_edges st @ [tag_edge_of n t]"
  by (simp add: push_tag_def tag_edge_of_def Let_def)

lemma push_tag_ids:
  "tag_inv st \<Longrightarrow> ids st \<subseteq> ids (push_tag n t st) \<and> ''tag:'' @ t \<in> ids (push_tag n t st)"
  by (auto simp: push_tag_def tag_inv_def ids_def Let_def)

lemma push_tag_note_nodes: "note_nodes (push_tag n t st) = note_nodes st"
  by (simp add: push_tag_def note_nodes_def Let_def)

lemma fold_push_tag_inv: "tag_inv st \<Longrightarrow> tag_inv (fold (push_tag n) ts st)"
  by (induction ts arbitrary: st) (simp_all add: push_tag_inv)

lemma fold_push_tag_edges:
  "b_edges (fold (push_tag n) ts st) = b_edges st @ map (tag_edge_of n) ts"
  by (induction ts arbitrary: st) (simp_all add: push_tag_edges)

lemma fold_push_tag_ids:
  "tag_inv st \<Longrightarrow>
   ids st \<union> (\<lambda>t. ''tag:'' @ t) ` set ts \<subseteq> ids (fold (push_tag n) ts st)"
proof (induction ts arbitrary: st)
  case Nil
  then show ?case by simp
next
  case (Cons t ts)
  have "ids (push_tag n t st) \<union> (\<lambda>t. ''tag:'' @ t) ` set ts
          \<subseteq> ids (fold (push_tag n) ts (push_tag n t st))"
    by (rule Cons.IH) (rule push_tag_inv [OF Cons.prems])
  then show ?case using push_tag_ids [OF Cons.prems, of n t] by auto
qed

lemma fold_push_tag_note_nodes: "note_nodes (fold (push_tag n) ts st) = note_nodes st"
  by (induction ts arbitrary: st) (simp_all add: push_tag_note_nodes)

lemma push_folder_inv: "tag_inv st \<Longrightarrow> tag_inv (push_folder n st)"
  by (auto simp: push_folder_def tag_inv_def ids_def Let_def Map_has_set)

lemma push_folder_edges: "b_edges (push_folder n st) = b_edges st @ folder_edges_of n"
  by (simp add: push_folder_def folder_edges_of_def has_folder_def Let_def)

lemma push_folder_ids:
  "tag_inv st \<Longrightarrow>
   ids st \<subseteq> ids (push_folder n st) \<and>
   (has_folder n \<longrightarrow> ''folder:'' @ getFolder (path n) \<in> ids (push_folder n st))"
  by (auto simp: push_folder_def tag_inv_def ids_def has_folder_def Let_def)

lemma push_folder_note_nodes: "note_nodes (push_folder n st) = note_nodes st"
  by (simp add: push_folder_def note_nodes_def Let_def)

lemma add_note_unfold:
  "add_note s n st = push_folder n (fold (push_tag n) (opt_list (tags n)) (after_links s n st))"
  by (simp add: add_note_def after_links_def opt_list_def fold_push_link_edge Let_def
      split: option.splits)

lemma after_links_inv: "tag_inv st \<Longrightarrow> tag_inv (after_links s n st)"
  by (auto simp: after_links_def tag_inv_def ids_def)

lemma add_note_inv: "tag_inv st \<Longrightarrow> tag_inv (add_note s n st)"
  by (simp add: add_note_unfold push_folder_inv fold_push_tag_inv after_links_inv)

lemma add_note_edges: "b_edges (add_note s n st) = b_edges st @ note_edges s n"
  by (simp add: add_note_unfold push_folder_edges fold_push_tag_edges after_links_def
      note_edges_def)

lemma add_note_note_nodes: "note_nodes (add_note s n st) = note_nodes st @ [note_node_of n]"
  by (simp add: add_note_unfold push_folder_note_nodes fold_push_tag_note_nodes)
    (simp add: note_nodes_def after_links_def note_node_of_def)

lemma add_note_ids: 
  assumes "tag_inv st"
  shows "ids st \<union> note_ids n \<subseteq> ids (add_note s n st)"
proof -
  let ?a = "after_links s n st"
  let ?t = "fold (push_tag n) (opt_list (tags n)) ?a"
  have a: "tag_inv ?a" by (rule after_links_inv [OF assms])
  have "insert (path n) (ids st) \<subseteq> ids ?a"
    by (auto simp: after_links_def ids_def note_node_of_def)
  moreover have "ids ?a \<union> (\<lambda>t. ''tag:'' @ t) ` set (opt_list (tags n)) \<subseteq> ids ?t"
    by (rule fold_push_tag_ids [OF a])
  moreover have "ids ?t \<subseteq> ids (push_folder n ?t) \<and>
     (has_folder n \<longrightarrow> ''folder:'' @ getFolder (path n) \<in> ids (push_folder n ?t))"
    by (rule push_folder_ids [OF fold_push_tag_inv [OF a]])
  ultimately show ?thesis
    unfolding add_note_unfold note_ids_def by (auto split: if_splits)
qed

lemma fold_add_note_edges:
  "b_edges (fold (add_note s) vs st) = b_edges st @ concat (map (note_edges s) vs)"
  by (induction vs arbitrary: st) (simp_all add: add_note_edges)

lemma fold_add_note_note_nodes:
  "note_nodes (fold (add_note s) vs st) = note_nodes st @ map note_node_of vs"
  by (induction vs arbitrary: st) (simp_all add: add_note_note_nodes)

lemma fold_add_note_ids:
  "tag_inv st \<Longrightarrow> ids st \<union> (\<Union>n \<in> set vs. note_ids n) \<subseteq> ids (fold (add_note s) vs st)"
proof (induction vs arbitrary: st)
  case Nil
  then show ?case by simp
next
  case (Cons v vs)
  have "ids (add_note s v st) \<union> (\<Union>n \<in> set vs. note_ids n)
          \<subseteq> ids (fold (add_note s) vs (add_note s v st))"
    by (rule Cons.IH) (rule add_note_inv [OF Cons.prems])
  then show ?case using add_note_ids [OF Cons.prems, of v s] by auto
qed

lemma tag_inv_empty: "tag_inv empty_builder"
  by (simp add: tag_inv_def empty_builder_def Map_has_def)

lemma buildGraph_edges: "edges (buildGraph s) = concat (map (note_edges s) (Map_values s))"
  by (simp add: buildGraph_def Let_def fold_add_note_edges)

lemma buildGraph_note_nodes:
  "filter (\<lambda>v. node_type v = note_node) (nodes (buildGraph s)) = map note_node_of (Map_values s)"
  using fold_add_note_note_nodes [of s "Map_values s" empty_builder]
  by (simp add: buildGraph_def Let_def note_nodes_def empty_builder_def)

lemma buildGraph_ids:
  "(\<Union>n \<in> set (Map_values s). note_ids n) \<subseteq> node_id ` set (nodes (buildGraph s))"
  using fold_add_note_ids [OF tag_inv_empty, of "Map_values s" s]
  by (simp add: buildGraph_def Let_def ids_def empty_builder_def)

text \<open>
  Claim C1, as amended. In the graph built from any snapshot, the source of every edge
  is the id of a node of that graph, and so is the target of every tagged-with and
  in-folder edge and of every link edge whose resolved target is the path of a note;
  the only edges whose target may be no node are link edges whose resolved target
  names no note of the snapshot.
\<close>

theorem buildGraph_edge_endpoints:
  "\<forall>e \<in> set (edges (buildGraph (updateNotes ns))).
      edge_source e \<in> node_id ` set (nodes (buildGraph (updateNotes ns))) \<and>
      (edge_target e \<in> node_id ` set (nodes (buildGraph (updateNotes ns))) \<or>
       is_link_edge e \<and> \<not> Map_has (updateNotes ns) (edge_target e))"
proof
  let ?s = "updateNotes ns"
  let ?ids = "node_id ` set (nodes (buildGraph ?s))"
  fix e assume "e \<in> set (edges (buildGraph ?s))"
  then obtain n where n: "n \<in> set (Map_values ?s)" and e: "e \<in> set (note_edges ?s n)"
    by (auto simp: buildGraph_edges)
  have sub: "note_ids n \<subseteq> ?ids" using buildGraph_ids [of ?s] n by blast
  have wf: "wf_snapshot ?s" by (rule wf_snapshot_updateNotes)
  have src: "edge_source e = path n"
    using e by (auto simp: note_edges_def link_edge_of_def tag_edge_of_def folder_edges_of_def
        split: if_splits)
  then have "edge_source e \<in> ?ids" using sub by (auto simp: note_ids_def)
  moreover have "edge_target e \<in> ?ids \<or> is_link_edge e \<and> \<not> Map_has ?s (edge_target e)"
  proof (cases "is_link_edge e")
    case True
    show ?thesis
    proof (cases "Map_has ?s (edge_target e)")
      case has: True
      then obtain m where "m \<in> set (Map_values ?s)" "path m = edge_target e"
        by (auto simp: Map_has_paths [OF wf])
      then have "edge_target e \<in> note_ids m" by (auto simp: note_ids_def)
      then show ?thesis using buildGraph_ids [of ?s] \<open>m \<in> set (Map_values ?s)\<close> by blast
    next
      case False
      then show ?thesis using True by simp
    qed
  next
    case False
    then have "edge_target e \<in> note_ids n"
      using e by (auto simp: note_edges_def link_edge_of_def tag_edge_of_def folder_edges_of_def
          is_link_edge_def note_ids_def split: if_splits)
    then show ?thesis using sub by blast
  qed
  ultimately show "edge_source e \<in> ?ids \<and>
      (edge_target e \<in> ?ids \<or> is_link_edge e \<and> \<not> Map_has ?s (edge_target e))"
    by simp
qed

text \<open>
  Counterexample to C1 as stated: the link from \<open>a\<close> to a note that does not exist is
  resolved to the normalised string and the edge is emitted all the same, with a
  target that is the id of no node.
\<close>

theorem buildGraph_dangling_edge:
  "\<lparr>edge_source = ''a.md'', edge_target = ''ghost.md'', edge_type = link_edge internal,
     weight = 1\<rparr> \<in> set (edges (buildGraph (updateNotes ghost_vault))) \<and>
   ''ghost.md'' \<notin> node_id ` set (nodes (buildGraph (updateNotes ghost_vault)))"
  by code_simp

theorem buildGraph_edge_endpoints_witness:
  "\<lparr>edge_source = ''a.md'', edge_target = ''b.md'', edge_type = link_edge internal,
     weight = 1\<rparr> \<in> set (edges (buildGraph (updateNotes ghost_vault))) \<and>
   ''a.md'' \<in> node_id ` set (nodes (buildGraph (updateNotes ghost_vault))) \<and>
   ''b.md'' \<in> node_id ` set (nodes (buildGraph (updateNotes ghost_vault)))"
proof -
  let ?e = "\<lparr>edge_source = ''a.md'', edge_target = ''b.md'', edge_type = link_edge internal,
     weight = 1\<rparr>"
  have mem: "?e \<in> set (edges (buildGraph (updateNotes ghost_vault)))" by code_simp
  have has: "Map_has (updateNotes ghost_vault) ''b.md''" by code_simp
  show ?thesis
    using buildGraph_edge_endpoints [of ghost_vault, THEN bspec, OF mem] mem has by simp
qed

lemma length_note_edges:
  "length (note_edges s n) =
     length (opt_list (links n)) + length (opt_list (tags n)) + (if has_folder n then 1 else 0)"
  by (simp add: note_edges_def folder_edges_of_def)

text \<open>
  Claim C7. \<^verbatim>\<open>totalNodes\<close> is the number of note nodes of the built graph, which
  is the number of notes of the snapshot: tag and folder nodes are not counted.
  \<^verbatim>\<open>totalEdges\<close> is the length of the whole edge list: per note one edge for
  every link, one for every tag and one for its folder.
\<close>

theorem analyzeGraph_totals:
  "totalNodes (analyzeGraph s)
     = length (filter (\<lambda>v. node_type v = note_node) (nodes (buildGraph s))) \<and>
   totalNodes (analyzeGraph s) = length (Map_values s) \<and>
   totalEdges (analyzeGraph s) = length (edges (buildGraph s)) \<and>
   totalEdges (analyzeGraph s)
     = (\<Sum>n\<leftarrow>Map_values s. length (opt_list (links n)) + length (opt_list (tags n))
                              + (if has_folder n then 1 else 0))"
proof -
  have "length (concat (map (note_edges s) vs))
     = (\<Sum>n\<leftarrow>vs. length (opt_list (links n)) + length (opt_list (tags n))
                              + (if has_folder n then 1 else 0))" for vs
    by (induction vs) (simp_all add: length_note_edges)
  then show ?thesis
    by (simp add: analyzeGraph_def Let_def split_beta buildGraph_note_nodes buildGraph_edges)
qed

theorem analyzeGraph_totals_witness:
  "totalNodes (analyzeGraph (updateNotes project_vault)) = 4 \<and>
   length (nodes (buildGraph (updateNotes project_vault))) = 7 \<and>
   totalEdges (analyzeGraph (updateNotes project_vault)) = 9 \<and>
   length (edges (buildGraph (updateNotes project_vault))) = 9"
proof -
  have "length (Map_values (updateNotes project_vault)) = 4" by code_simp
  moreover have "length (nodes (buildGraph (updateNotes project_vault))) = 7" by code_simp
  moreover have "length (edges (buildGraph (updateNotes project_vault))) = 9" by code_simp
  ultimately show ?thesis
    using analyzeGraph_totals [of "updateNotes project_vault"] by simp
qed

lemma fold_count_note_orphans:
  "snd (fold count_note vs st) = snd st @ map path (filter (\<lambda>n. linkCount_of n = 0) vs)"
  by (induction vs arbitrary: st) (simp_all add: count_note_def Let_def)

lemma fold_count_note_counts:
  "set (fst (fold count_note vs st)) \<subseteq> set (fst st) \<union> (\<lambda>n. (path n, linkCount_of n)) ` set vs"
proof (induction vs arbitrary: st)
  case Nil
  then show ?case by simp
next
  case (Cons v vs)
  have "set (fst (count_note v st)) \<subseteq> insert (path v, linkCount_of v) (set (fst st))"
    using set_update_subset [of "path v" "linkCount_of v" "fst st"]
    by (simp add: count_note_def Let_def Map_set_def)
  then show ?case using Cons.IH [of "count_note v st"] by auto
qed

text \<open>
  Claim C8. The orphans are exactly the paths of the notes whose number of link
  records plus number of backlink records is zero, in iteration order; where a link
  leads plays no part, and every record counts, as the connection totals reported in
  \<^verbatim>\<open>mostConnectedNodes\<close> show.
\<close>

theorem analyzeGraph_orphans:
  "orphanNotes (analyzeGraph s)
     = map path (filter (\<lambda>n. length (opt_list (links n)) + length (opt_list (backlinks n)) = 0)
                   (Map_values s)) \<and>
   set (mostConnectedNodes (analyzeGraph s))
     \<subseteq> (\<lambda>n. (path n, int (length (opt_list (links n)))
                      + int (length (opt_list (backlinks n))))) ` set (Map_values s)"
proof -
  have "set (take 10 (sort_key (\<lambda>e. - snd e) (fst (fold count_note (Map_values s) ([], [])))))
          \<subseteq> set (fst (fold count_note (Map_values s) ([], [])))"
    using set_take_subset [of 10 "sort_key (\<lambda>e. - snd e) (fst (fold count_note (Map_values s) ([], [])))"]
    by simp
  then have "set (mostConnectedNodes (analyzeGraph s))
      \<subseteq> (\<lambda>n. (path n, linkCount_of n)) ` set (Map_values s)"
    using fold_count_note_counts [of "Map_values s" "([], [])"]
    by (simp add: analyzeGraph_def Let_def split_beta)
  moreover have "(linkCount_of n = 0)
      = (length (opt_list (links n)) + length (opt_list (backlinks n)) = 0)" for n
    unfolding linkCount_of_def by linarith
  then have "orphanNotes (analyzeGraph s)
     = map path (filter (\<lambda>n. length (opt_list (links n)) + length (opt_list (backlinks n)) = 0)
                   (Map_values s))"
    by (simp add: analyzeGraph_def Let_def split_beta fold_count_note_orphans)
  ultimately show ?thesis by (simp add: linkCount_of_def)
qed

theorem analyzeGraph_orphans_witness:
  "orphanNotes (analyzeGraph (updateNotes project_vault)) = [''z.md'', ''w.md''] \<and>
   mostConnectedNodes (analyzeGraph (updateNotes project_vault))
     = [(''work/x.md'', 3), (''work/y.md'', 2), (''z.md'', 0), (''w.md'', 0)]"
proof -
  have "map path (filter (\<lambda>n. length (opt_list (links n)) + length (opt_list (backlinks n)) = 0)
                   (Map_values (updateNotes project_vault))) = [''z.md'', ''w.md'']"
    by code_simp
  moreover have "mostConnectedNodes (analyzeGraph (updateNotes project_vault))
     = [(''work/x.md'', 3), (''work/y.md'', 2), (''z.md'', 0), (''w.md'', 0)]"
    by code_simp
  ultimately show ?thesis
    using analyzeGraph_orphans [of "updateNotes project_vault"] by simp
qed

subsection \<open>Link suggestions\<close>

lemma score_tags_add: "score_tags p (opt_list (tags src)) = add_score p (tag_points src)"
  by (intro ext) (simp add: score_tags_def add_score_def tag_points_def opt_list_def Let_def
      split: option.splits)

lemma score_title_add:
  "score_title p (set (split_ws (toLowerCase (title src)))) = add_score p (title_points src)"
  by (intro ext) (simp add: score_title_def add_score_def title_points_def title_words_def Let_def)

lemma score_folder_add: "score_folder p folder = add_score p (folder_points folder)"
  by (intro ext) (simp add: score_folder_def add_score_def folder_points_def)

lemma add_score_zero: "(\<And>m. g m = 0) \<Longrightarrow> fold (add_score p g) vs sc = sc"
  by (induction vs arbitrary: sc) (simp_all add: add_score_def)

lemma fold_score_tags:
  "(case tags src of None \<Rightarrow> [] | Some noteTags \<Rightarrow> fold (score_tags p noteTags) vs [])
     = fold (add_score p (tag_points src)) vs []"
proof (cases "tags src")
  case None
  then have "tag_points src m = 0" for m by (simp add: tag_points_def opt_list_def)
  then show ?thesis using None by (simp add: add_score_zero)
next
  case (Some ts)
  then show ?thesis using score_tags_add [of p src] by (simp add: opt_list_def)
qed

lemma suggestRelatedNotes_all_scores:
  "suggestRelatedNotes s p k =
     (case Map_get s p of None \<Rightarrow> []
      | Some src \<Rightarrow> slice_to (sort_key (\<lambda>e. - snd e) (all_scores s p src)) k)"
  by (simp add: suggestRelatedNotes_def all_scores_def fold_score_tags score_title_add
      score_folder_add Let_def split: option.splits)

lemma Map_get_bump:
  "Map_get (bump sc k x) q = (if q = k then Some (get0 sc k + x) else Map_get sc q)"
  by (simp add: bump_def Map_get_def Map_set_def get0_def update_conv')

lemma add_score_get:
  "distinct (map path vs) \<Longrightarrow>
   Map_get (fold (add_score p g) vs sc) q =
     (case find (\<lambda>m. path m = q) vs of
        None \<Rightarrow> Map_get sc q
      | Some m \<Rightarrow> if q \<noteq> p \<and> g m > 0 then Some (get0 sc q + g m) else Map_get sc q)"
proof (induction vs arbitrary: sc)
  case Nil
  then show ?case by simp
next
  case (Cons v vs)
  have d: "distinct (map path vs)" and nv: "path v \<notin> path ` set vs"
    using Cons.prems by auto
  show ?case
  proof (cases "path v = q")
    case True
    then have "find (\<lambda>m. path m = q) vs = None"
      using nv by (auto simp: find_None_iff image_iff)
    then show ?thesis
      using True Cons.IH [OF d, of "add_score p g v sc"]
      by (auto simp: add_score_def Map_get_bump)
  next
    case False
    then have eq1: "Map_get (add_score p g v sc) q = Map_get sc q"
      by (simp add: add_score_def Map_get_bump)
    then have eq2: "get0 (add_score p g v sc) q = get0 sc q" by (simp add: get0_def)
    have "Map_get (fold (add_score p g) (v # vs) sc) q
        = Map_get (fold (add_score p g) vs (add_score p g v sc)) q"
      by simp
    also have "\<dots> = (case find (\<lambda>m. path m = q) vs of
        None \<Rightarrow> Map_get (add_score p g v sc) q
      | Some m \<Rightarrow> if q \<noteq> p \<and> g m > 0 then Some (get0 (add_score p g v sc) q + g m)
                  else Map_get (add_score p g v sc) q)"
      by (rule Cons.IH [OF d])
    also have "\<dots> = (case find (\<lambda>m. path m = q) vs of
        None \<Rightarrow> Map_get sc q
      | Some m \<Rightarrow> if q \<noteq> p \<and> g m > 0 then Some (get0 sc q + g m) else Map_get sc q)"
      by (simp only: eq1 eq2)
    also have "\<dots> = (case find (\<lambda>m. path m = q) (v # vs) of
        None \<Rightarrow> Map_get sc q
      | Some m \<Rightarrow> if q \<noteq> p \<and> g m > 0 then Some (get0 sc q + g m) else Map_get sc q)"
      using False by simp
    finally show ?thesis .
  qed
qed

lemma add_score_distinct:
  "distinct (map fst sc) \<Longrightarrow> distinct (map fst (fold (add_score p g) vs sc))"
  by (induction vs arbitrary: sc)
    (simp_all add: add_score_def bump_def Map_set_def distinct_update)

lemma add_score_keys:
  "p \<notin> fst ` set sc \<Longrightarrow> p \<notin> fst ` set (fold (add_score p g) vs sc)"
proof (induction vs arbitrary: sc)
  case Nil
  then show ?case by simp
next
  case (Cons v vs)
  have "p \<notin> fst ` set (add_score p g v sc)"
    using Cons.prems by (auto simp: add_score_def bump_def Map_set_def dom_update)
  then show ?case using Cons.IH by simp
qed

lemma find_path_get:
  "wf_snapshot s \<Longrightarrow> find (\<lambda>m. path m = q) (Map_values s) = Map_get s q"
proof -
  assume "wf_snapshot s"
  then have "list_all (\<lambda>(k, n). path n = k) s" by (simp add: wf_snapshot_def)
  then show ?thesis
    by (induction s) (auto simp: Map_values_def Map_get_def)
qed

lemma tag_points_card:
  "distinct (opt_list (tags src)) \<Longrightarrow>
   tag_points src c = 10 * int (card (set (opt_list (tags src)) \<inter> set (opt_list (tags c))))"
proof -
  assume "distinct (opt_list (tags src))"
  then have "length (filter (\<lambda>tag. tag \<in> set (opt_list (tags c))) (opt_list (tags src)))
      = card ({x. x \<in> set (opt_list (tags c))} \<inter> set (opt_list (tags src)))"
    by (rule distinct_length_filter)
  then show ?thesis by (simp add: tag_points_def Int_commute)
qed

lemma points_nonneg:
  "0 \<le> tag_points src c" "0 \<le> title_points src c" "0 \<le> folder_points f c"
  by (simp_all add: tag_points_def title_points_def folder_points_def)

lemma add_score_chain:
  assumes d: "distinct (map path vs)" and f: "find (\<lambda>m. path m = q) vs = Some c"
    and qp: "q \<noteq> p" and g: "0 \<le> g c" and a: "0 \<le> a"
    and sc: "Map_get sc q = (if 0 < a then Some a else None)"
  shows "Map_get (fold (add_score p g) vs sc) q = (if 0 < a + g c then Some (a + g c) else None)"
proof -
  have "get0 sc q = a" using sc a by (simp add: get0_def)
  then show ?thesis
    unfolding add_score_get [OF d] f using qp g a sc by auto
qed

lemma add_score_skip:
  assumes d: "distinct (map path vs)" and f: "find (\<lambda>m. path m = q) vs = None \<or> q = p"
  shows "Map_get (fold (add_score p g) vs sc) q = Map_get sc q"
  unfolding add_score_get [OF d] using f by (auto split: option.splits)

lemma all_scores_get:
  assumes wf: "wf_snapshot s"
  shows "Map_get (all_scores s p src) q =
     (case Map_get s q of
        None \<Rightarrow> None
      | Some c \<Rightarrow>
          if q \<noteq> p \<and> 0 < tag_points src c + title_points src c + folder_points (getFolder p) c
          then Some (tag_points src c + title_points src c + folder_points (getFolder p) c)
          else None)"
proof -
  have d: "distinct (map path (Map_values s))"
    using wf by (simp add: wf_snapshot_paths wf_snapshot_def)
  have e: "Map_get [] q = None" by (simp add: Map_get_def)
  show ?thesis
  proof (cases "Map_get s q = None \<or> q = p")
    case True
    then have "find (\<lambda>m. path m = q) (Map_values s) = None \<or> q = p"
      by (simp add: find_path_get [OF wf])
    then have "Map_get (all_scores s p src) q = None"
      unfolding all_scores_def by (simp add: add_score_skip [OF d] e)
    then show ?thesis using True by (auto split: option.splits)
  next
    case False
    then obtain c where c: "Map_get s q = Some c" and qp: "q \<noteq> p" by auto
    have f: "find (\<lambda>m. path m = q) (Map_values s) = Some c"
      using c by (simp add: find_path_get [OF wf])
    let ?sc1 = "fold (add_score p (tag_points src)) (Map_values s) []"
    let ?sc2 = "fold (add_score p (title_points src)) (Map_values s) ?sc1"
    have 1: "Map_get ?sc1 q
        = (if 0 < 0 + tag_points src c then Some (0 + tag_points src c) else None)"
      by (rule add_score_chain [OF d f qp points_nonneg(1)]) (simp_all add: e)
    have 2: "Map_get ?sc2 q
        = (if 0 < tag_points src c + title_points src c
           then Some (tag_points src c + title_points src c) else None)"
      by (rule add_score_chain [OF d f qp points_nonneg(2) points_nonneg(1)])
        (use 1 in simp)
    have 3: "Map_get (all_scores s p src) q
        = (if 0 < tag_points src c + title_points src c + folder_points (getFolder p) c
           then Some (tag_points src c + title_points src c + folder_points (getFolder p) c)
           else None)"
      unfolding all_scores_def
      by (rule add_score_chain [OF d f qp points_nonneg(3)])
        (use 2 points_nonneg(1) [of src c] points_nonneg(2) [of src c] in simp_all)
    show ?thesis using 3 c qp by simp
  qed
qed

lemma all_scores_distinct: "distinct (map fst (all_scores s p src))"
  unfolding all_scores_def by (intro add_score_distinct) simp

lemma all_scores_keys: "p \<notin> fst ` set (all_scores s p src)"
  unfolding all_scores_def by (intro add_score_keys) simp

lemma set_slice_to: "set (slice_to xs k) \<subseteq> set xs"
  by (auto simp: slice_to_def dest: in_set_takeD)

lemma points_spec:
  assumes "distinct (opt_list (tags src))"
  shows "tag_points src c + title_points src c + folder_points (getFolder (path src)) c
           = score_spec src c"
proof -
  have "(\<lambda>word. word \<in> set (title_words src) \<and> 3 < length word)
      = (\<lambda>w. 3 < length w \<and> w \<in> set (title_words src))"
    by auto
  then show ?thesis
    by (simp add: tag_points_card [OF assms] title_points_def folder_points_def score_spec_def)
qed

text \<open>
  Claim C5. On every snapshot whose notes carry no tag twice, and for every known
  note id and every limit, each entry of \<^verbatim>\<open>suggestRelatedNotes\<close> names a note
  of the snapshot and carries the score of the specification for that candidate: ten
  per shared tag, five per occurrence in the candidate's title words of a word longer
  than three characters that occurs in the source's title, three for an equal folder;
  and a candidate whose score is not strictly positive has no entry.
\<close>

theorem suggestRelatedNotes_score:
  assumes tags_set: "\<forall>n \<in> set (Map_values (updateNotes ns)). distinct (opt_list (tags n))"
    and known: "Map_get (updateNotes ns) p = Some src"
  shows "(\<forall>(q, sc) \<in> set (suggestRelatedNotes (updateNotes ns) p k).
            \<exists>c. Map_get (updateNotes ns) q = Some c \<and> sc = score_spec src c \<and> 0 < sc) \<and>
         (\<forall>q c. Map_get (updateNotes ns) q = Some c \<and> \<not> 0 < score_spec src c
            \<longrightarrow> q \<notin> fst ` set (suggestRelatedNotes (updateNotes ns) p k))"
proof -
  let ?s = "updateNotes ns"
  have wf: "wf_snapshot ?s" by (rule wf_snapshot_updateNotes)
  have p: "path src = p" using wf known by (rule wf_snapshot_get)
  have "src \<in> set (Map_values ?s)" using known by (rule Map_get_in_values)
  then have ds: "distinct (opt_list (tags src))" using tags_set by blast
  have sub: "set (suggestRelatedNotes ?s p k) \<subseteq> set (all_scores ?s p src)"
    using set_slice_to [of "sort_key (\<lambda>e. - snd e) (all_scores ?s p src)" k]
    by (simp add: suggestRelatedNotes_all_scores known)
  have get: "Map_get (all_scores ?s p src) q =
     (case Map_get ?s q of
        None \<Rightarrow> None
      | Some c \<Rightarrow> if q \<noteq> p \<and> 0 < score_spec src c then Some (score_spec src c) else None)"
    for q
    using all_scores_get [OF wf, of p src q] points_spec [OF ds] p
    by (auto split: option.splits)
  have mem: "Map_get (all_scores ?s p src) q = Some sc"
    if "(q, sc) \<in> set (suggestRelatedNotes ?s p k)" for q sc
    using that sub all_scores_distinct [of ?s p src]
    by (auto simp: Map_get_def)
  have "\<exists>c. Map_get ?s q = Some c \<and> sc = score_spec src c \<and> 0 < sc"
    if "(q, sc) \<in> set (suggestRelatedNotes ?s p k)" for q sc
    using mem [OF that] unfolding get by (auto split: option.splits if_splits)
  moreover have "q \<notin> fst ` set (suggestRelatedNotes ?s p k)"
    if "Map_get ?s q = Some c \<and> \<not> 0 < score_spec src c" for q c
  proof
    assume "q \<in> fst ` set (suggestRelatedNotes ?s p k)"
    then obtain sc where "(q, sc) \<in> set (suggestRelatedNotes ?s p k)" by auto
    then show False using mem [of q sc] that unfolding get by (auto split: if_splits)
  qed
  ultimately show ?thesis by blast
qed

theorem suggestRelatedNotes_score_witness:
  "list_all (\<lambda>n. distinct (opt_list (tags n))) (Map_values (updateNotes project_vault)) \<and>
   Map_get (updateNotes project_vault) ''work/x.md'' = Some (hd project_vault) \<and>
   suggestRelatedNotes (updateNotes project_vault) ''work/x.md'' 5
     = [(''work/y.md'', 23), (''z.md'', 10)] \<and>
   (\<exists>c. Map_get (updateNotes project_vault) ''work/y.md'' = Some c \<and>
        score_spec (hd project_vault) c = 23) \<and>
   ''w.md'' \<notin> fst ` set (suggestRelatedNotes (updateNotes project_vault) ''work/x.md'' 5)"
proof -
  let ?s = "updateNotes project_vault"
  have tags_set: "list_all (\<lambda>n. distinct (opt_list (tags n))) (Map_values ?s)"
    by code_simp
  have known: "Map_get ?s ''work/x.md'' = Some (hd project_vault)"
    by code_simp
  have res: "suggestRelatedNotes ?s ''work/x.md'' 5 = [(''work/y.md'', 23), (''z.md'', 10)]"
    by code_simp
  have w: "Map_get ?s ''w.md'' = Some (last project_vault)
             \<and> \<not> 0 < score_spec (hd project_vault) (last project_vault)"
    by code_simp
  have all: "\<forall>n \<in> set (Map_values ?s). distinct (opt_list (tags n))"
    using tags_set by (simp add: list_all_iff)
  note inst = suggestRelatedNotes_score [OF all known, of 5]
  have "\<exists>c. Map_get ?s ''work/y.md'' = Some c \<and> 23 = score_spec (hd project_vault) c \<and> (0::int) < 23"
    using inst [THEN conjunct1, THEN bspec, of "(''work/y.md'', 23)"] res by simp
  moreover have "''w.md'' \<notin> fst ` set (suggestRelatedNotes ?s ''work/x.md'' 5)"
    using inst [THEN conjunct2, THEN spec, THEN spec, THEN mp, OF w] .
  ultimately show ?thesis using tags_set known res by auto
qed

text \<open>
  The title words are compared after lower-casing and splitting as JavaScript does on
  the Latin-1 block too: the accented capital matches its small letter, and the
  no-break space separates two words.
\<close>

lemma suggestRelatedNotes_latin1:
  "suggestRelatedNotes (updateNotes accent_vault) ''p/a.md'' 5 = [(''q/b.md'', 5)] \<and>
   suggestRelatedNotes (updateNotes nbsp_vault) ''p/a.md'' 5 = [(''q/b.md'', 5)]"
proof -
  have "suggestRelatedNotes (updateNotes accent_vault) ''p/a.md'' 5 = [(''q/b.md'', 5)]"
    by code_simp
  moreover have "suggestRelatedNotes (updateNotes nbsp_vault) ''p/a.md'' 5 = [(''q/b.md'', 5)]"
    by code_simp
  ultimately show ?thesis by simp
qed

lemma length_slice_to: "0 \<le> k \<Longrightarrow> int (length (slice_to xs k)) \<le> k"
  by (simp add: slice_to_def)

lemma sorted_slice_to:
  "sorted_wrt P xs \<Longrightarrow> sorted_wrt P (slice_to xs k)"
  by (simp add: slice_to_def sorted_wrt_take)

text \<open>
  Claim C6. For every snapshot, every note id and every limit \<open>k\<close>, no entry of
  \<^verbatim>\<open>suggestRelatedNotes\<close> names the note itself, the list has at most \<open>k\<close>
  entries, and the scores do not increase from the first entry to the last. The limit
  is a count, so the bound on the length is stated for the limits that are not
  negative; the other two parts hold for every value of the parameter.
\<close>

theorem suggestRelatedNotes_order:
  "p \<notin> fst ` set (suggestRelatedNotes s p k) \<and>
   (0 \<le> k \<longrightarrow> int (length (suggestRelatedNotes s p k)) \<le> k) \<and>
   sorted_wrt (\<lambda>a b. snd b \<le> snd a) (suggestRelatedNotes s p k)"
proof (cases "Map_get s p")
  case None
  then show ?thesis by (simp add: suggestRelatedNotes_all_scores)
next
  case (Some src)
  let ?sorted = "sort_key (\<lambda>e. - snd e) (all_scores s p src)"
  have res: "suggestRelatedNotes s p k = slice_to ?sorted k"
    using Some by (simp add: suggestRelatedNotes_all_scores)
  have "p \<notin> fst ` set ?sorted" using all_scores_keys [of p s src] by simp
  then have "p \<notin> fst ` set (slice_to ?sorted k)"
    using set_slice_to [of ?sorted k] by blast
  moreover have "sorted (map (\<lambda>e. - snd e) ?sorted)" by (rule sorted_sort_key)
  then have "sorted_wrt (\<lambda>a b. snd b \<le> snd a) ?sorted" by (simp add: sorted_map)
  then have "sorted_wrt (\<lambda>a b. snd b \<le> snd a) (slice_to ?sorted k)"
    by (rule sorted_slice_to)
  ultimately show ?thesis unfolding res using length_slice_to [of k ?sorted] by simp
qed

theorem suggestRelatedNotes_order_witness:
  "(0::int) \<le> 1 \<and>
   suggestRelatedNotes (updateNotes project_vault) ''work/x.md'' 1 = [(''work/y.md'', 23)] \<and>
   int (length (suggestRelatedNotes (updateNotes project_vault) ''work/x.md'' 1)) \<le> 1 \<and>
   ''work/x.md'' \<notin> fst ` set (suggestRelatedNotes (updateNotes project_vault) ''work/x.md'' 1)"
proof -
  have res: "suggestRelatedNotes (updateNotes project_vault) ''work/x.md'' 1
     = [(''work/y.md'', 23)]"
    by code_simp
  show ?thesis
    using suggestRelatedNotes_order [of "''work/x.md''" "updateNotes project_vault" 1] res
    by simp
qed

end
